theory Spec2Isabelle
  imports Main "HOL-Library.Sublist"
begin

section \<open>Strings\<close>

text \<open>
  A Python \<open>str\<close> is modelled as a \<open>string\<close>; one \<open>char\<close> stands for one code point
  (the code points below 256). \<open>lower\<close> is \<open>str.lower\<close> on that range: the ASCII capitals
  and the Latin-1 capitals (U+00C0 to U+00DE without the multiplication sign U+00D7) move
  up by 32, every other code point is left alone.
\<close>

definition newline :: char where
  "newline = CHR 0x0A"

definition quote :: char where
  "quote = CHR 0x27"

definition lower_char :: "char \<Rightarrow> char" where
  "lower_char c =
     (let n = (of_char c :: nat)
      in if (65 \<le> n \<and> n \<le> 90) \<or> (192 \<le> n \<and> n \<le> 222 \<and> n \<noteq> 215)
         then char_of (n + 32) else c)"

definition lower :: "string \<Rightarrow> string" where
  "lower s = map lower_char s"

text \<open>The slice \<open>s[-4:]\<close>: the last four characters, or all of \<open>s\<close> when it is shorter.\<close>

definition last4 :: "string \<Rightarrow> string" where
  "last4 s = drop (length s - 4) s"

text \<open>\<open>str(n)\<close> for a non-negative integer, as an f-string renders a counter.\<close>

definition digit_char :: "nat \<Rightarrow> char" where
  "digit_char d = char_of (48 + d)"

fun str_nat :: "nat \<Rightarrow> string" where
  "str_nat n = (if n < 10 then [digit_char n] else str_nat (n div 10) @ [digit_char (n mod 10)])"

declare str_nat.simps [simp del]

text \<open>\<open>repr\<close> of a list of strings that hold no quote, backslash or control character.\<close>

definition repr_str :: "string \<Rightarrow> string" where
  "repr_str s = [quote] @ s @ [quote]"

fun join :: "string \<Rightarrow> string list \<Rightarrow> string" where
  "join d [] = []"
| "join d [x] = x"
| "join d (x # y # ys) = x @ d @ join d (y # ys)"

definition repr_list :: "string list \<Rightarrow> string" where
  "repr_list xs = ''['' @ join '', '' (map repr_str xs) @ '']''"


section \<open>Regular expressions\<close>

text \<open>
  The two patterns of the program use literal characters, bracketed character classes,
  concatenation, the quantifiers \<open>?\<close>, \<open>+\<close>, \<open>{n}\<close> and \<open>{n,}\<close>, and the anchors \<open>^\<close> and
  \<open>$\<close>. Groups, capturing or not, only matter for what a match object reports; the
  program looks at nothing but whether \<open>re.search\<close> found a match, so a group is its body.

  A cursor is the number of characters already passed and the rest of the subject.
  \<open>rmatch r p\<close> lists the cursors at which a match of \<open>r\<close> that starts at \<open>p\<close> can end,
  in the order in which a backtracking matcher tries them (a greedy quantifier tries one
  more round before it stops). An unbounded quantifier is run with the bound "minimum
  plus number of characters left"; no larger bound finds more (\<open>unbounded_is_capped\<close>).
\<close>

datatype regex =
    Lit char
  | Class "(char \<times> char) list"
  | Cat regex regex
  | Repeat regex nat "nat option"
  | Bol
  | Eol

type_synonym cursor = "nat \<times> string"

definition in_class :: "char \<Rightarrow> (char \<times> char) list \<Rightarrow> bool" where
  "in_class c rs =
     list_ex (\<lambda>(lo, hi). (of_char lo :: nat) \<le> of_char c \<and> (of_char c :: nat) \<le> of_char hi) rs"

primrec repeat :: "(cursor \<Rightarrow> cursor list) \<Rightarrow> nat \<Rightarrow> nat \<Rightarrow> cursor \<Rightarrow> cursor list" where
  "repeat f 0 lo p = (if lo = 0 then [p] else [])"
| "repeat f (Suc hi) lo p =
     concat (map (repeat f hi (lo - 1)) (f p)) @ (if lo = 0 then [p] else [])"

primrec rmatch :: "regex \<Rightarrow> cursor \<Rightarrow> cursor list" where
  "rmatch (Lit c) p =
     (case snd p of [] \<Rightarrow> [] | x # t \<Rightarrow> if x = c then [(Suc (fst p), t)] else [])"
| "rmatch (Class rs) p =
     (case snd p of [] \<Rightarrow> [] | x # t \<Rightarrow> if in_class x rs then [(Suc (fst p), t)] else [])"
| "rmatch (Cat a b) p = concat (map (rmatch b) (rmatch a p))"
| "rmatch (Repeat a lo hi) p =
     repeat (rmatch a) (case hi of None \<Rightarrow> lo + length (snd p) | Some h \<Rightarrow> h) lo p"
| "rmatch Bol p = (if fst p = 0 then [p] else [])"
| "rmatch Eol p = (if snd p = [] \<or> snd p = [newline] then [p] else [])"

text \<open>
  \<open>re.search\<close> tries every start position from the left, the end of the subject included,
  and reports whether one of them has a match.
\<close>

definition search :: "regex \<Rightarrow> string \<Rightarrow> bool" where
  "search r s = list_ex (\<lambda>k. rmatch r (k, drop k s) \<noteq> []) [0..<Suc (length s)]"

text \<open>
  Shorthands for writing the patterns down as they are in the source: a sequence (the
  empty one matches the empty string), \<open>r?\<close>, \<open>r+\<close>, \<open>r{n}\<close>, \<open>r{n,}\<close>, and a single
  character inside a class.
\<close>

fun cats :: "regex list \<Rightarrow> regex" where
  "cats [] = Repeat Bol 0 (Some 0)"
| "cats [r] = r"
| "cats (r # rs) = Cat r (cats rs)"

definition Optional :: "regex \<Rightarrow> regex" where
  "Optional r = Repeat r 0 (Some 1)"

definition OneOrMore :: "regex \<Rightarrow> regex" where
  "OneOrMore r = Repeat r 1 None"

definition Exactly :: "nat \<Rightarrow> regex \<Rightarrow> regex" where
  "Exactly n r = Repeat r n (Some n)"

definition AtLeastN :: "nat \<Rightarrow> regex \<Rightarrow> regex" where
  "AtLeastN n r = Repeat r n None"

definition only :: "char \<Rightarrow> char \<times> char" where
  "only c = (c, c)"

text \<open>\<open>email_re = '[a-zA-Z0-9._%+-]+@[a-zA-Z0-9.-]+\.[a-zA-Z]{2,}'\<close>\<close>

definition email_local :: regex where
  "email_local = Class [(CHR ''a'', CHR ''z''), (CHR ''A'', CHR ''Z''), (CHR ''0'', CHR ''9''),
                        only CHR ''.'', only CHR ''_'', only CHR ''%'', only CHR ''+'', only CHR ''-'']"

definition email_domain :: regex where
  "email_domain = Class [(CHR ''a'', CHR ''z''), (CHR ''A'', CHR ''Z''), (CHR ''0'', CHR ''9''),
                         only CHR ''.'', only CHR ''-'']"

definition alpha :: regex where
  "alpha = Class [(CHR ''a'', CHR ''z''), (CHR ''A'', CHR ''Z'')]"

definition email_re :: regex where
  "email_re =
     cats [OneOrMore email_local, Lit CHR ''@'', OneOrMore email_domain, Lit CHR ''.'',
           AtLeastN 2 alpha]"

text \<open>\<open>phone_re = '^(?:\+?1[- ]?)?\(?([0-9]{3})\)?[- ]?([0-9]{3})[- ]?([0-9]{4})$'\<close>\<close>

definition digit :: regex where
  "digit = Class [(CHR ''0'', CHR ''9'')]"

definition dash_or_space :: regex where
  "dash_or_space = Class [only CHR ''-'', only CHR '' '']"

definition phone_body :: regex where
  "phone_body =
     cats [Optional (cats [Optional (Lit CHR ''+''), Lit CHR ''1'', Optional dash_or_space]),
           Optional (Lit CHR ''(''), Exactly 3 digit, Optional (Lit CHR '')''),
           Optional dash_or_space, Exactly 3 digit,
           Optional dash_or_space, Exactly 4 digit]"

definition phone_re :: regex where
  "phone_re = Cat Bol (Cat phone_body Eol)"


section \<open>Values, errors and the data frame\<close>

text \<open>
  What \<open>row[label]\<close> hands to the program is a Python object: a \<open>str\<close>, or something
  else (the parser turns an all-numeric column into numbers and an empty field into the
  float \<open>nan\<close>). A value that is not a \<open>str\<close> is kept with the text that \<open>str.format\<close>
  and an f-string render for it. \<open>re.search\<close> raises \<open>TypeError\<close> on it.
\<close>

datatype cell = Str string | Other string

datatype error =
    ValueError string
  | TypeError
  | KeyError string
  | EOFError
  | FileNotFoundError string
  | ParserError string

fun text_of :: "cell \<Rightarrow> string" where
  "text_of (Str s) = s"
| "text_of (Other t) = t"

fun re_search :: "regex \<Rightarrow> cell \<Rightarrow> error + bool" where
  "re_search r (Str s) = Inr (search r s)"
| "re_search r (Other t) = Inl TypeError"

text \<open>
  A data frame: the column labels in file order and a rectangle of cells, \<open>nrows\<close> rows
  by one cell for each label. \<open>iloc\<close> is the row as a labelled series. Looking a label up
  in a series gives the cell when one column carries the label, raises \<open>KeyError\<close> when
  none does, and gives a sub-series (not a \<open>str\<close>) when several do; the rendering of a
  sub-series belongs to the library and is the parameter \<open>series_str\<close>.
\<close>

record dataframe =
  columns :: "string list"
  nrows :: nat
  cell_at :: "nat \<Rightarrow> nat \<Rightarrow> cell"

type_synonym series = "(string \<times> cell) list"

definition iloc :: "dataframe \<Rightarrow> nat \<Rightarrow> series" where
  "iloc df i = map (\<lambda>j. (columns df ! j, cell_at df i j)) [0..<length (columns df)]"

definition getitem :: "(series \<Rightarrow> string) \<Rightarrow> series \<Rightarrow> string \<Rightarrow> error + cell" where
  "getitem series_str row k =
     (case filter (\<lambda>(l, v). l = k) row of
        [] \<Rightarrow> Inl (KeyError k)
      | [(l, v)] \<Rightarrow> Inr v
      | sub \<Rightarrow> Inr (Other (series_str sub)))"


section \<open>The card template\<close>

definition vcard_format :: string where
  "vcard_format =
     ''BEGIN:VCARD\<newline>VERSION:3.0\<newline>EMAIL:{email}\<newline>TEL;TYPE=cell,voice:{number}\<newline>FN:{fname} {lname}\<newline>END:VCARD\<newline>''"

text \<open>
  \<open>str.format\<close> with keyword arguments, for templates whose replacement fields are plain
  names, as those of \<open>vcard_format\<close> are (conversions, format specifications and
  numbered fields are left out): \<open>{{\<close> and \<open>}}\<close> stand for a brace, \<open>{name}\<close> is
  replaced by the text of the argument of that name, an unknown name raises \<open>KeyError\<close>,
  an unmatched brace raises \<open>ValueError\<close>. The second argument of \<open>fmt\<close> is the field
  name read so far, when the scan is inside a field.
\<close>

fun fmt :: "(string \<times> cell) list \<Rightarrow> string option \<Rightarrow> string \<Rightarrow> error + string" where
  "fmt kw None [] = Inr []"
| "fmt kw (Some n) [] = Inl (ValueError (''expected '' @ [quote] @ ''}'' @ [quote] @ '' before end of string''))"
| "fmt kw None (c # cs) =
     (if c = CHR ''{'' then
        (case cs of
           d # ds \<Rightarrow> if d = CHR ''{'' then map_sum id ((#) c) (fmt kw None ds) else fmt kw (Some []) cs
         | [] \<Rightarrow> Inl (ValueError (''Single '' @ [quote] @ ''{'' @ [quote] @ '' encountered in format string'')))
      else if c = CHR ''}'' then
        (case cs of
           d # ds \<Rightarrow> if d = CHR ''}'' then map_sum id ((#) c) (fmt kw None ds)
                     else Inl (ValueError (''Single '' @ [quote] @ ''}'' @ [quote] @ '' encountered in format string''))
         | [] \<Rightarrow> Inl (ValueError (''Single '' @ [quote] @ ''}'' @ [quote] @ '' encountered in format string'')))
      else map_sum id ((#) c) (fmt kw None cs))"
| "fmt kw (Some n) (c # cs) =
     (if c = CHR ''}'' then
        (case map_of kw n of
           None \<Rightarrow> Inl (KeyError n)
         | Some v \<Rightarrow> map_sum id ((@) (text_of v)) (fmt kw None cs))
      else fmt kw (Some (n @ [c])) cs)"

definition format :: "string \<Rightarrow> (string \<times> cell) list \<Rightarrow> error + string" where
  "format template kw = fmt kw None template"


section \<open>The world: files, console input and console output\<close>

text \<open>
  The file system maps the path of a regular file to its text; \<open>stdin\<close> holds the lines
  still to be typed, \<open>stdout\<close> everything written to the console so far. \<open>print\<close> writes
  its argument and a line terminator; \<open>input\<close> writes its prompt and takes one line, and
  raises \<open>EOFError\<close> when there is none. Directories, permissions and the other ways in
  which opening a file can fail are left out: a path is a regular file or free.
\<close>

record world =
  fs :: "string \<rightharpoonup> string"
  stdin :: "string list"
  stdout :: string

definition isfile :: "world \<Rightarrow> string \<Rightarrow> bool" where
  "isfile w p = (fs w p \<noteq> None)"

definition py_print :: "string \<Rightarrow> world \<Rightarrow> world" where
  "py_print s w = w\<lparr>stdout := stdout w @ s @ [newline]\<rparr>"

definition py_input :: "string \<Rightarrow> world \<Rightarrow> (error + string) \<times> world" where
  "py_input prompt w =
     (case stdin w of
        [] \<Rightarrow> (Inl EOFError, w\<lparr>stdout := stdout w @ prompt\<rparr>)
      | l # ls \<Rightarrow> (Inr l, w\<lparr>stdin := ls, stdout := stdout w @ prompt\<rparr>))"

text \<open>\<open>with open(path, 'w') as fp: print(text, file=fp)\<close>\<close>

definition write_line :: "string \<Rightarrow> string \<Rightarrow> world \<Rightarrow> world" where
  "write_line path s w = w\<lparr>fs := (fs w)(path \<mapsto> s @ [newline])\<rparr>"

text \<open>
  \<open>pd.read_csv(path)\<close>: the file is read and handed to the library's parser, which is
  the parameter \<open>parse\<close>; it returns a data frame or raises.
\<close>

definition read_csv :: "(string \<Rightarrow> error + dataframe) \<Rightarrow> string \<Rightarrow> world \<Rightarrow> error + dataframe" where
  "read_csv parse path w =
     (case fs w path of None \<Rightarrow> Inl (FileNotFoundError path) | Some content \<Rightarrow> parse content)"


section \<open>The program\<close>

record args =
  input :: string
  "output" :: string

definition get_args :: "string \<Rightarrow> string option \<Rightarrow> args" where
  "get_args i out =
     \<lparr>input = i, output = (case out of None \<Rightarrow> ''contact_file.vcf'' | Some p \<Rightarrow> p)\<rparr>"

text \<open>
  The warning of \<open>verify_row\<close>: \<open>print(f"<what> for {row['first name']} {row['last name']}")\<close>.
\<close>

definition warn :: "(series \<Rightarrow> string) \<Rightarrow> string \<Rightarrow> series \<Rightarrow> world \<Rightarrow> (error + unit) \<times> world" where
  "warn series_str what row w =
     (case getitem series_str row ''first name'' of
        Inl e \<Rightarrow> (Inl e, w)
      | Inr f \<Rightarrow>
          (case getitem series_str row ''last name'' of
             Inl e \<Rightarrow> (Inl e, w)
           | Inr l \<Rightarrow> (Inr (), py_print (what @ '' for '' @ text_of f @ '' '' @ text_of l) w)))"

text \<open>One field of \<open>verify_row\<close>: look it up, search it, warn when nothing is found.\<close>

definition check_field ::
  "(series \<Rightarrow> string) \<Rightarrow> regex \<Rightarrow> string \<Rightarrow> string \<Rightarrow> series \<Rightarrow> world \<Rightarrow> (error + bool) \<times> world" where
  "check_field series_str r label what row w =
     (case getitem series_str row label of
        Inl e \<Rightarrow> (Inl e, w)
      | Inr v \<Rightarrow>
          (case re_search r v of
             Inl e \<Rightarrow> (Inl e, w)
           | Inr True \<Rightarrow> (Inr True, w)
           | Inr False \<Rightarrow>
               (case warn series_str what row w of
                  (Inl e, w') \<Rightarrow> (Inl e, w')
                | (Inr u, w') \<Rightarrow> (Inr False, w'))))"

definition verify_row :: "(series \<Rightarrow> string) \<Rightarrow> series \<Rightarrow> world \<Rightarrow> (error + bool) \<times> world" where
  "verify_row series_str row w =
     (case check_field series_str phone_re ''phone'' ''Bad Phone Number'' row w of
        (Inl e, w1) \<Rightarrow> (Inl e, w1)
      | (Inr phone_ok, w1) \<Rightarrow>
          (case check_field series_str email_re ''email'' ''Bad Email'' row w1 of
             (Inl e, w2) \<Rightarrow> (Inl e, w2)
           | (Inr email_ok, w2) \<Rightarrow> (Inr (phone_ok \<and> email_ok), w2)))"

text \<open>
  \<open>vcard_format.format(email=row['email'], number=row['phone'], fname=row['first name'],
  lname=row['last name'])\<close>: the four lookups in the order of the call, then the template.
\<close>

definition vcard :: "(series \<Rightarrow> string) \<Rightarrow> series \<Rightarrow> error + string" where
  "vcard series_str row =
     (case getitem series_str row ''email'' of
        Inl e \<Rightarrow> Inl e
      | Inr em \<Rightarrow>
     (case getitem series_str row ''phone'' of
        Inl e \<Rightarrow> Inl e
      | Inr ph \<Rightarrow>
     (case getitem series_str row ''first name'' of
        Inl e \<Rightarrow> Inl e
      | Inr fn \<Rightarrow>
     (case getitem series_str row ''last name'' of
        Inl e \<Rightarrow> Inl e
      | Inr ln \<Rightarrow>
          format vcard_format
            [(''email'', em), (''number'', ph), (''fname'', fn), (''lname'', ln)]))))"

text \<open>The message of line 95 is a plain string, not an f-string: it is printed as written.\<close>

definition skipping :: string where
  "skipping = ''Skipping {row['' @ [quote] @ ''first name'' @ [quote] @ '']} {row[''
                @ [quote] @ ''last name'' @ [quote] @ '']}''"

text \<open>
  The loop \<open>for i in range(len(contact_info))\<close> over the indices still to come, with the
  document and the counter built so far.
\<close>

fun add_contacts ::
  "(series \<Rightarrow> string) \<Rightarrow> dataframe \<Rightarrow> nat list \<Rightarrow> string \<times> nat \<Rightarrow> world
     \<Rightarrow> (error + string \<times> nat) \<times> world" where
  "add_contacts series_str df [] acc w = (Inr acc, w)"
| "add_contacts series_str df (i # rest) acc w =
     (let row = iloc df i in
      case verify_row series_str row w of
        (Inl e, w1) \<Rightarrow> (Inl e, w1)
      | (Inr valid, w1) \<Rightarrow>
          (let w2 = (if \<not> valid then py_print skipping w1 else w1) in
           case vcard series_str row of
             Inl e \<Rightarrow> (Inl e, w2)
           | Inr block \<Rightarrow> add_contacts series_str df rest (fst acc @ block, snd acc + 1) w2))"

definition required_cols :: "string list" where
  "required_cols = [''First name'', ''Last name'', ''Email'', ''Phone'']"

definition not_a_file :: "string \<Rightarrow> string" where
  "not_a_file p = ''Input file '' @ p @ '' is not a valid file path''"

definition not_csv :: string where
  "not_csv = ''Must provide a CSV file as input''"

definition not_vcf :: string where
  "not_vcf = ''Output file must end with '' @ [quote] @ ''.vcf'' @ [quote]"

definition missing_cols :: string where
  "missing_cols =
     ''Input CSV file must include the following columns: '' @ repr_list required_cols"

text \<open>Lines 105 to 115: ask before overwriting, then write or say that nothing was written.\<close>

definition publish :: "args \<Rightarrow> string \<Rightarrow> nat \<Rightarrow> world \<Rightarrow> (error + unit) \<times> world" where
  "publish a doc n w =
     (case (if isfile w (output a)
            then py_input (''Overwrite file '' @ output a @ ''? (Y or N): '') w
            else (Inr ''y'', w)) of
        (Inl e, w1) \<Rightarrow> (Inl e, w1)
      | (Inr overwrite, w1) \<Rightarrow>
          if lower overwrite = ''y''
          then (Inr (),
                py_print (str_nat n @ '' contacts successfully published to file '' @ output a)
                  (write_line (output a) doc w1))
          else (Inr (), py_print ''Results not written to file'' w1))"

definition main ::
  "(string \<Rightarrow> error + dataframe) \<Rightarrow> (series \<Rightarrow> string) \<Rightarrow> args \<Rightarrow> world \<Rightarrow> (error + unit) \<times> world" where
  "main parse series_str a w =
     (if \<not> isfile w (input a) then (Inl (ValueError (not_a_file (input a))), w)
      else if last4 (input a) \<noteq> ''.csv'' then (Inl (ValueError not_csv), w)
      else if last4 (output a) \<noteq> ''.vcf'' then (Inl (ValueError not_vcf), w)
      else
        (case read_csv parse (input a) w of
           Inl e \<Rightarrow> (Inl e, w)
         | Inr parsed \<Rightarrow>
             (let contact_info = parsed\<lparr>columns := map lower (columns parsed)\<rparr> in
              if \<not> list_all (\<lambda>col. lower col \<in> set (columns contact_info)) required_cols
              then (Inl (ValueError missing_cols), w)
              else
                (case add_contacts series_str contact_info [0..<nrows contact_info] ([], 0) w of
                   (Inl e, w1) \<Rightarrow> (Inl e, w1)
                 | (Inr (doc, num_contacts_added), w1) \<Rightarrow>
                     publish a doc num_contacts_added
                       (py_print (''Successfully generated contact file for ''
                                    @ str_nat num_contacts_added @ '' people'') w1)))))"


section \<open>Notions used to state the properties\<close>

text \<open>
  These are not part of the program. \<open>anchor_free\<close> says that a pattern holds neither
  \<open>^\<close> nor \<open>$\<close>; \<open>chars_of\<close> collects the character ranges a pattern can consume;
  \<open>phone_alphabet\<close> is the set of characters a phone value may hold; \<open>case_variant\<close>
  relates two spellings that differ in letter case only.
\<close>

fun anchor_free :: "regex \<Rightarrow> bool" where
  "anchor_free (Lit c) = True"
| "anchor_free (Class rs) = True"
| "anchor_free (Cat a b) = (anchor_free a \<and> anchor_free b)"
| "anchor_free (Repeat a lo hi) = anchor_free a"
| "anchor_free Bol = False"
| "anchor_free Eol = False"

fun chars_of :: "regex \<Rightarrow> (char \<times> char) list" where
  "chars_of (Lit c) = [only c]"
| "chars_of (Class rs) = rs"
| "chars_of (Cat a b) = chars_of a @ chars_of b"
| "chars_of (Repeat a lo hi) = chars_of a"
| "chars_of Bol = []"
| "chars_of Eol = []"

definition phone_alphabet :: "(char \<times> char) list" where
  "phone_alphabet = [(CHR ''0'', CHR ''9''), only CHR ''+'', only CHR ''-'', only CHR '' '',
                     only CHR ''('', only CHR '')'', only newline]"

definition same_letter :: "char \<Rightarrow> char \<Rightarrow> bool" where
  "same_letter x y = (x = y \<or> y = lower_char x \<or> x = lower_char y)"

definition case_variant :: "string \<Rightarrow> string \<Rightarrow> bool" where
  "case_variant a b = list_all2 same_letter a b"


section \<open>Facts about the matcher\<close>

text \<open>
  A match of a pattern without anchors is still a match when the subject goes on after
  it and when the match starts further to the right.
\<close>

lemma repeat_extend:
  assumes step: "\<And>i t j u i'. (j, u) \<in> set (f (i, t)) \<Longrightarrow> \<exists>j'. (j', u @ post) \<in> set (g (i', t @ post))"
  shows "(j, u) \<in> set (repeat f hi lo (i, t)) \<Longrightarrow> hi \<le> hi' \<Longrightarrow>
           \<exists>j'. (j', u @ post) \<in> set (repeat g hi' lo (i', t @ post))"
proof (induction hi arbitrary: hi' lo i t i')
  case 0
  then have "lo = 0" "(j, u) = (i, t)" by (auto split: if_splits)
  then show ?case by (cases hi') auto
next
  case (Suc hi)
  then obtain h where h: "hi' = Suc h" "hi \<le> h" by (cases hi') auto
  from Suc.prems(1) consider
    (more) m v where "(m, v) \<in> set (f (i, t))" "(j, u) \<in> set (repeat f hi (lo - 1) (m, v))"
    | (stop) "lo = 0" "(j, u) = (i, t)"
    by (auto split: if_splits)
  then show ?case
  proof cases
    case more
    from step [OF more(1)] obtain m' where m': "(m', v @ post) \<in> set (g (i', t @ post))" by blast
    from Suc.IH [OF more(2) h(2)] obtain j' where
      "(j', u @ post) \<in> set (repeat g h (lo - 1) (m', v @ post))" by blast
    with m' show ?thesis unfolding h(1) by auto
  next
    case stop
    then show ?thesis unfolding h(1) by auto
  qed
qed

lemma rmatch_extend:
  "anchor_free r \<Longrightarrow> (j, u) \<in> set (rmatch r (i, t)) \<Longrightarrow>
     \<exists>j'. (j', u @ post) \<in> set (rmatch r (i', t @ post))"
proof (induction r arbitrary: i t j u i')
  case (Lit c)
  then show ?case by (auto split: list.splits if_splits)
next
  case (Class rs)
  then show ?case by (auto split: list.splits if_splits)
next
  case (Cat a b)
  from Cat.prems obtain m v where
    a: "(m, v) \<in> set (rmatch a (i, t))" and b: "(j, u) \<in> set (rmatch b (m, v))"
    by auto
  from Cat.IH(1) [OF _ a] Cat.prems(1) obtain m' where
    a': "(m', v @ post) \<in> set (rmatch a (i', t @ post))" by auto
  from Cat.IH(2) [OF _ b] Cat.prems(1) obtain j' where
    "(j', u @ post) \<in> set (rmatch b (m', v @ post))" by auto
  with a' show ?case by auto
next
  case (Repeat a lo hi)
  have step: "\<And>i t j u i'. (j, u) \<in> set (rmatch a (i, t)) \<Longrightarrow>
                \<exists>j'. (j', u @ post) \<in> set (rmatch a (i', t @ post))"
    using Repeat.IH Repeat.prems(1) by simp
  have le: "(case hi of None \<Rightarrow> lo + length t | Some h \<Rightarrow> h)
              \<le> (case hi of None \<Rightarrow> lo + length (t @ post) | Some h \<Rightarrow> h)"
    by (simp split: option.splits)
  have mem: "(j, u) \<in> set (repeat (rmatch a)
                 (case hi of None \<Rightarrow> lo + length t | Some h \<Rightarrow> h) lo (i, t))"
    using Repeat.prems(2) by (cases hi) simp_all
  have "\<exists>j'. (j', u @ post) \<in> set (repeat (rmatch a)
           (case hi of None \<Rightarrow> lo + length (t @ post) | Some h \<Rightarrow> h) lo (i', t @ post))"
    by (rule repeat_extend [where f = "rmatch a" and g = "rmatch a" and post = post,
          OF step mem le])
  then show ?case by (cases hi) simp_all
next
  case Bol
  then show ?case by simp
next
  case Eol
  then show ?case by simp
qed

lemma search_iff:
  "search r s \<longleftrightarrow> (\<exists>k\<le>length s. rmatch r (k, drop k s) \<noteq> [])"
  by (auto simp del: upt_Suc simp: search_def list_ex_iff less_Suc_eq_le)

lemma search_embedded:
  assumes "anchor_free r" "search r e"
  shows "search r (pre @ e @ post)"
proof -
  from assms(2) obtain k where k: "k \<le> length e" "rmatch r (k, drop k e) \<noteq> []"
    by (auto simp: search_iff)
  then obtain j u where "(j, u) \<in> set (rmatch r (k, drop k e))"
    by (cases "rmatch r (k, drop k e)") auto
  from rmatch_extend [OF assms(1) this, of post "length pre + k"]
  have "rmatch r (length pre + k, drop k e @ post) \<noteq> []" by auto
  moreover have "drop (length pre + k) (pre @ e @ post) = drop k e @ post"
    using k(1) by simp
  ultimately show ?thesis
    using k(1) by (auto simp: search_iff intro!: exI [of _ "length pre + k"])
qed

lemma anchor_free_email: "anchor_free email_re"
  by (simp add: email_re_def OneOrMore_def AtLeastN_def email_local_def email_domain_def alpha_def)

text \<open>The phone pattern can only match from position 0 up to the end of the subject.\<close>

lemma phone_anchored:
  "search phone_re s \<longleftrightarrow> (\<exists>q \<in> set (rmatch phone_body (0, s)). snd q = [] \<or> snd q = [newline])"
proof -
  have "rmatch phone_re (k, drop k s) \<noteq> [] \<longleftrightarrow>
          k = 0 \<and> (\<exists>q \<in> set (rmatch phone_body (0, s)). snd q = [] \<or> snd q = [newline])" for k
    by (auto simp: phone_re_def)
  then show ?thesis by (auto simp: search_iff)
qed

text \<open>What a match passes over is a prefix of the rest, made of characters of the pattern.\<close>

lemma in_class_append: "in_class c (xs @ ys) \<longleftrightarrow> in_class c xs \<or> in_class c ys"
  by (auto simp: in_class_def)

lemma in_class_only: "in_class c [only c]"
  by (simp add: in_class_def only_def)

lemma repeat_consumes:
  assumes step: "\<And>i t j u. (j, u) \<in> set (f (i, t)) \<Longrightarrow>
                   \<exists>m. t = m @ u \<and> j = i + length m \<and> list_all P m"
  shows "(j, u) \<in> set (repeat f hi lo (i, t)) \<Longrightarrow>
           \<exists>m. t = m @ u \<and> j = i + length m \<and> list_all P m"
proof (induction hi arbitrary: lo i t)
  case 0
  then show ?case by (auto split: if_splits)
next
  case (Suc hi)
  from Suc.prems consider
    (more) k v where "(k, v) \<in> set (f (i, t))" "(j, u) \<in> set (repeat f hi (lo - 1) (k, v))"
    | (stop) "(j, u) = (i, t)"
    by (auto split: if_splits)
  then show ?case
  proof cases
    case more
    from step [OF more(1)] obtain m1 where
      m1: "t = m1 @ v" "k = i + length m1" "list_all P m1" by blast
    from Suc.IH [OF more(2)] obtain m2 where
      m2: "v = m2 @ u" "j = k + length m2" "list_all P m2" by blast
    from m1 m2 have "t = (m1 @ m2) @ u \<and> j = i + length (m1 @ m2) \<and> list_all P (m1 @ m2)"
      by simp
    then show ?thesis by blast
  next
    case stop
    then show ?thesis by simp
  qed
qed

lemma rmatch_consumes:
  "(j, u) \<in> set (rmatch r (i, t)) \<Longrightarrow>
     \<exists>m. t = m @ u \<and> j = i + length m \<and> list_all (\<lambda>c. in_class c (chars_of r)) m"
proof (induction r arbitrary: i t j u)
  case (Lit c)
  then show ?case by (auto simp: in_class_only split: list.splits if_splits)
next
  case (Class rs)
  then show ?case by (auto split: list.splits if_splits)
next
  case (Cat a b)
  from Cat.prems obtain k v where
    a: "(k, v) \<in> set (rmatch a (i, t))" and b: "(j, u) \<in> set (rmatch b (k, v))"
    by auto
  from Cat.IH(1) [OF a] obtain m1 where
    m1: "t = m1 @ v" "k = i + length m1" "list_all (\<lambda>c. in_class c (chars_of a)) m1" by blast
  from Cat.IH(2) [OF b] obtain m2 where
    m2: "v = m2 @ u" "j = k + length m2" "list_all (\<lambda>c. in_class c (chars_of b)) m2" by blast
  have "list_all (\<lambda>c. in_class c (chars_of (Cat a b))) (m1 @ m2)"
    using m1(3) m2(3) by (auto simp: list_all_iff in_class_append)
  with m1 m2 have "t = (m1 @ m2) @ u \<and> j = i + length (m1 @ m2)
      \<and> list_all (\<lambda>c. in_class c (chars_of (Cat a b))) (m1 @ m2)" by simp
  then show ?case by blast
next
  case (Repeat a lo hi)
  have mem: "(j, u) \<in> set (repeat (rmatch a)
                 (case hi of None \<Rightarrow> lo + length t | Some h \<Rightarrow> h) lo (i, t))"
    using Repeat.prems by (cases hi) simp_all
  have "\<exists>m. t = m @ u \<and> j = i + length m \<and> list_all (\<lambda>c. in_class c (chars_of a)) m"
    by (rule repeat_consumes [where f = "rmatch a", OF Repeat.IH mem])
  then show ?case by simp
next
  case Bol
  then show ?case by (auto split: if_splits)
next
  case Eol
  then show ?case by (auto split: if_splits)
qed

text \<open>
  The cap on an unbounded quantifier loses nothing: every bound from the cap upwards
  gives the same cursors, since a round that passes no character leads back to the
  cursor it started from.
\<close>

lemma repeat_mono:
  "set (repeat f hi lo p) \<subseteq> set (repeat f (Suc hi) lo p)"
proof (induction hi arbitrary: lo p)
  case 0
  then show ?case by auto
next
  case (Suc hi)
  have "set (repeat f (Suc hi) lo p)
          = (\<Union>q\<in>set (f p). set (repeat f hi (lo - 1) q)) \<union> (if lo = 0 then {p} else {})"
    by auto
  also have "\<dots> \<subseteq> (\<Union>q\<in>set (f p). set (repeat f (Suc hi) (lo - 1) q)) \<union> (if lo = 0 then {p} else {})"
    using Suc.IH by blast
  also have "\<dots> = set (repeat f (Suc (Suc hi)) lo p)"
    by auto
  finally show ?case .
qed

lemma repeat_cap_step:
  assumes step: "\<And>p q. q \<in> set (f p) \<Longrightarrow> \<exists>m. snd p = m @ snd q \<and> fst q = fst p + length m"
  shows "lo + length (snd p) \<le> hi \<Longrightarrow> set (repeat f (Suc hi) lo p) = set (repeat f hi lo p)"
proof (induction hi arbitrary: lo p)
  case 0
  then have lo: "lo = 0" and e: "snd p = []" by auto
  have "q = p" if "q \<in> set (f p)" for q
    using step [OF that] e by (cases p; cases q) auto
  then show ?case using lo by auto
next
  case (Suc h)
  have shrink: "set (repeat f (Suc h) (lo - 1) q) = set (repeat f h (lo - 1) q)"
    if q: "q \<in> set (f p)" "q \<noteq> p \<or> 0 < lo" for q
  proof -
    from step [OF q(1)] obtain m where m: "snd p = m @ snd q" "fst q = fst p + length m" by blast
    have "(lo - 1) + length (snd q) \<le> h"
    proof (cases "m = []")
      case True
      with m have "q = p" by (cases p; cases q) auto
      with q(2) have "0 < lo" by simp
      with Suc.prems True m show ?thesis by simp
    next
      case False
      then have "length (snd q) < length (snd p)" using m(1) by simp
      with Suc.prems show ?thesis by simp
    qed
    from Suc.IH [OF this] show ?thesis .
  qed
  have L: "set (repeat f (Suc (Suc h)) lo p)
          = (\<Union>q\<in>set (f p). set (repeat f (Suc h) (lo - 1) q)) \<union> (if lo = 0 then {p} else {})"
    by auto
  have R: "set (repeat f (Suc h) lo p)
          = (\<Union>q\<in>set (f p). set (repeat f h (lo - 1) q)) \<union> (if lo = 0 then {p} else {})"
    by auto
  show ?case
  proof (cases "0 < lo")
    case True
    with shrink show ?thesis unfolding L R by auto
  next
    case False
    then have lo: "lo = 0" by simp
    have "set (repeat f (Suc (Suc h)) lo p) \<subseteq> set (repeat f (Suc h) lo p)"
    proof
      fix x assume "x \<in> set (repeat f (Suc (Suc h)) lo p)"
      then consider q where "q \<in> set (f p)" "x \<in> set (repeat f (Suc h) (lo - 1) q)" | "x = p"
        unfolding L by (auto split: if_splits)
      then show "x \<in> set (repeat f (Suc h) lo p)"
      proof cases
        case 1
        show ?thesis
        proof (cases "q = p")
          case True
          with 1(2) lo show ?thesis by simp
        next
          case False
          with shrink [of q] 1 have "x \<in> set (repeat f h (lo - 1) q)" by simp
          with 1(1) show ?thesis unfolding R by auto
        qed
      next
        case 2
        with lo show ?thesis by simp
      qed
    qed
    with repeat_mono [of f "Suc h" lo p] show ?thesis by blast
  qed
qed

lemma repeat_cap:
  assumes step: "\<And>p q. q \<in> set (f p) \<Longrightarrow> \<exists>m. snd p = m @ snd q \<and> fst q = fst p + length m"
  shows "set (repeat f (lo + length (snd p) + k) lo p) = set (repeat f (lo + length (snd p)) lo p)"
proof (induction k)
  case 0
  show ?case by simp
next
  case (Suc k)
  have "set (repeat f (Suc (lo + length (snd p) + k)) lo p)
          = set (repeat f (lo + length (snd p) + k) lo p)"
    by (rule repeat_cap_step [OF step]) simp_all
  with Suc show ?case by simp
qed

lemma rmatch_step:
  "q \<in> set (rmatch r p) \<Longrightarrow> \<exists>m. snd p = m @ snd q \<and> fst q = fst p + length m"
  using rmatch_consumes [of "fst q" "snd q" r "fst p" "snd p"] by auto

lemma unbounded_is_capped:
  assumes "lo + length (snd p) \<le> hi"
  shows "set (rmatch (Repeat a lo (Some hi)) p) = set (rmatch (Repeat a lo None) p)"
proof -
  from assms obtain k where "hi = lo + length (snd p) + k"
    by (metis le_Suc_ex)
  then show ?thesis
    using repeat_cap [of "rmatch a" lo p k, OF rmatch_step] by simp
qed

lemma chars_of_phone_body:
  "in_class c (chars_of phone_body) \<Longrightarrow> in_class c phone_alphabet"
  by (auto simp: phone_body_def Optional_def Exactly_def digit_def dash_or_space_def
        phone_alphabet_def in_class_def only_def)

lemma phone_alphabet_only:
  assumes "search phone_re s"
  shows "list_all (\<lambda>c. in_class c phone_alphabet) s"
proof -
  from assms obtain j u where
    q: "(j, u) \<in> set (rmatch phone_body (0, s))" and u: "u = [] \<or> u = [newline]"
    by (auto simp: phone_anchored)
  from rmatch_consumes [OF q] obtain m where
    m: "s = m @ u" "list_all (\<lambda>c. in_class c (chars_of phone_body)) m" by blast
  have "list_all (\<lambda>c. in_class c phone_alphabet) m"
    using m(2) by (auto simp: list_all_iff chars_of_phone_body)
  moreover have "list_all (\<lambda>c. in_class c phone_alphabet) u"
    using u by (auto simp: phone_alphabet_def in_class_def only_def)
  ultimately show ?thesis using m(1) by simp
qed


section \<open>Facts about the program\<close>

subsection \<open>Letter case\<close>

lemma lower_char_idem: "lower_char (lower_char c) = lower_char c"
  by (auto simp: lower_char_def Let_def)

lemma case_variant_lower: "case_variant a b \<Longrightarrow> lower a = lower b"
  unfolding case_variant_def lower_def
  by (induction a b rule: list_all2_induct) (auto simp: same_letter_def lower_char_idem)

lemma lower_required:
  "map lower required_cols = [''first name'', ''last name'', ''email'', ''phone'']"
  unfolding required_cols_def by code_simp

lemma lower_y: "lower ''y'' = ''y''" "lower ''Y'' = ''y''" "lower ''n'' \<noteq> ''y''"
  by code_simp+

subsection \<open>Lookups and the template\<close>

lemma format_vcard:
  "format vcard_format [(''email'', em), (''number'', ph), (''fname'', fn), (''lname'', ln)]
     = Inr (''BEGIN:VCARD\<newline>VERSION:3.0\<newline>EMAIL:'' @ text_of em
            @ ''\<newline>TEL;TYPE=cell,voice:'' @ text_of ph
            @ ''\<newline>FN:'' @ text_of fn @ '' '' @ text_of ln @ ''\<newline>END:VCARD\<newline>'')"
  by (simp add: format_def vcard_format_def)

lemma labels_iloc: "map fst (iloc df i) = columns df"
  by (simp add: iloc_def comp_def map_nth)

lemma getitem_present:
  assumes "k \<in> set (columns df)"
  shows "\<exists>v. getitem series_str (iloc df i) k = Inr v"
proof -
  have "k \<in> fst ` set (iloc df i)"
    using assms labels_iloc [of df i] by (metis set_map)
  then have "filter (\<lambda>(l, v). l = k) (iloc df i) \<noteq> []"
    by (auto simp: filter_empty_conv)
  then show ?thesis
    by (auto simp: getitem_def split: list.splits)
qed

lemma getitem_row4:
  "getitem series_str [(''first name'', fn), (''last name'', ln), (''email'', em), (''phone'', ph)]
     ''first name'' = Inr fn"
  "getitem series_str [(''first name'', fn), (''last name'', ln), (''email'', em), (''phone'', ph)]
     ''last name'' = Inr ln"
  "getitem series_str [(''first name'', fn), (''last name'', ln), (''email'', em), (''phone'', ph)]
     ''email'' = Inr em"
  "getitem series_str [(''first name'', fn), (''last name'', ln), (''email'', em), (''phone'', ph)]
     ''phone'' = Inr ph"
  by (simp_all add: getitem_def)

lemma vcard_present:
  assumes "set [''email'', ''phone'', ''first name'', ''last name''] \<subseteq> set (columns df)"
  shows "\<exists>block. vcard series_str (iloc df i) = Inr block"
proof -
  obtain em ph fn ln where
    "getitem series_str (iloc df i) ''email'' = Inr em"
    "getitem series_str (iloc df i) ''phone'' = Inr ph"
    "getitem series_str (iloc df i) ''first name'' = Inr fn"
    "getitem series_str (iloc df i) ''last name'' = Inr ln"
    using assms getitem_present [of _ df series_str i] by (meson list.set_intros subsetD)
  then show ?thesis by (simp add: vcard_def format_vcard)
qed

subsection \<open>What the steps leave alone\<close>

lemma py_print_frame [simp]:
  "fs (py_print s w) = fs w" "stdin (py_print s w) = stdin w"
  "stdout (py_print s w) = stdout w @ s @ [newline]"
  by (simp_all add: py_print_def)

lemma warn_frame:
  "warn series_str what row w = (r, w') \<Longrightarrow> fs w' = fs w \<and> stdin w' = stdin w"
  by (auto simp: warn_def split: sum.splits)

lemma check_field_frame:
  "check_field series_str re label what row w = (r, w') \<Longrightarrow> fs w' = fs w \<and> stdin w' = stdin w"
  by (auto simp: check_field_def split: sum.splits bool.splits prod.splits dest: warn_frame)

lemma verify_row_frame:
  "verify_row series_str row w = (r, w') \<Longrightarrow> fs w' = fs w \<and> stdin w' = stdin w"
  by (auto simp: verify_row_def split: sum.splits prod.splits dest!: check_field_frame)

lemma add_contacts_frame:
  "add_contacts series_str df idx acc w = (r, w') \<Longrightarrow> fs w' = fs w \<and> stdin w' = stdin w"
proof (induction idx arbitrary: acc w)
  case Nil
  then show ?case by simp
next
  case (Cons i rest)
  then show ?case
    by (auto simp: Let_def split: sum.splits prod.splits if_splits dest!: verify_row_frame)
qed

subsection \<open>The loop\<close>

text \<open>A loop that ends normally has appended one card for each index, in order.\<close>

lemma add_contacts_done:
  "add_contacts series_str df idx acc w = (Inr acc', w') \<Longrightarrow>
     \<exists>blocks. map (\<lambda>i. vcard series_str (iloc df i)) idx = map Inr blocks
        \<and> fst acc' = fst acc @ concat blocks \<and> snd acc' = snd acc + length idx"
proof (induction idx arbitrary: acc w)
  case Nil
  then show ?case by simp
next
  case (Cons i rest)
  from Cons.prems obtain valid w1 block where
    v: "verify_row series_str (iloc df i) w = (Inr valid, w1)" and
    c: "vcard series_str (iloc df i) = Inr block" and
    r: "add_contacts series_str df rest (fst acc @ block, snd acc + 1)
          (if \<not> valid then py_print skipping w1 else w1) = (Inr acc', w')"
    by (auto simp: Let_def split: sum.splits prod.splits)
  from Cons.IH [OF r] obtain blocks where
    b: "map (\<lambda>i. vcard series_str (iloc df i)) rest = map Inr blocks"
       "fst acc' = (fst acc @ block) @ concat blocks" "snd acc' = (snd acc + 1) + length rest"
    by auto
  have "map (\<lambda>i. vcard series_str (iloc df i)) (i # rest) = map Inr (block # blocks)"
    using c b(1) by simp
  moreover have "fst acc' = fst acc @ concat (block # blocks)" using b(2) by simp
  moreover have "snd acc' = snd acc + length (i # rest)" using b(3) by simp
  ultimately show ?case by blast
qed

text \<open>With the four labels present, the only error the loop can raise is \<open>TypeError\<close>.\<close>

lemma re_search_error: "re_search r v = Inl e \<Longrightarrow> e = TypeError"
  by (cases v) auto

lemma warn_present:
  assumes "set [''first name'', ''last name''] \<subseteq> set (columns df)"
  shows "\<exists>w'. warn series_str what (iloc df i) w = (Inr (), w')"
proof -
  obtain fn ln where
    "getitem series_str (iloc df i) ''first name'' = Inr fn"
    "getitem series_str (iloc df i) ''last name'' = Inr ln"
    using assms getitem_present [of _ df series_str i] by (meson list.set_intros subsetD)
  then show ?thesis by (simp add: warn_def)
qed

lemma check_field_error:
  assumes "set [label, ''first name'', ''last name''] \<subseteq> set (columns df)"
    and "check_field series_str r label what (iloc df i) w = (Inl e, w')"
  shows "e = TypeError"
proof -
  obtain v where v: "getitem series_str (iloc df i) label = Inr v"
    using assms(1) getitem_present [of label df series_str i] by auto
  obtain w1 where "warn series_str what (iloc df i) w = (Inr (), w1)"
    using assms(1) warn_present [of df series_str what i w] by auto
  with v assms(2) show ?thesis
    by (auto simp: check_field_def split: sum.splits bool.splits dest: re_search_error)
qed

lemma verify_row_error:
  assumes "set [''email'', ''phone'', ''first name'', ''last name''] \<subseteq> set (columns df)"
    and "verify_row series_str (iloc df i) w = (Inl e, w')"
  shows "e = TypeError"
proof -
  have p: "set [''phone'', ''first name'', ''last name''] \<subseteq> set (columns df)"
    and q: "set [''email'', ''first name'', ''last name''] \<subseteq> set (columns df)"
    using assms(1) by auto
  show ?thesis
    using assms(2) check_field_error [OF p] check_field_error [OF q]
    by (fastforce simp: verify_row_def split: prod.splits sum.splits)
qed

lemma add_contacts_error:
  assumes "set [''email'', ''phone'', ''first name'', ''last name''] \<subseteq> set (columns df)"
  shows "add_contacts series_str df idx acc w = (Inl e, w') \<Longrightarrow> e = TypeError"
proof (induction idx arbitrary: acc w)
  case Nil
  then show ?case by simp
next
  case (Cons i rest)
  obtain block where "vcard series_str (iloc df i) = Inr block"
    using vcard_present [OF assms] by blast
  with Cons show ?case
    by (auto simp: Let_def split: prod.splits sum.splits if_splits
          dest: verify_row_error [OF assms])
qed

text \<open>On rows whose phone and email are strings the loop raises nothing.\<close>

lemma verify_row_strings:
  assumes "getitem series_str row ''phone'' = Inr (Str p)"
    "getitem series_str row ''email'' = Inr (Str e)"
    "getitem series_str row ''first name'' = Inr fn"
    "getitem series_str row ''last name'' = Inr ln"
  shows "\<exists>w'. verify_row series_str row w = (Inr (search phone_re p \<and> search email_re e), w')"
  using assms
  by (cases "search phone_re p"; cases "search email_re e")
     (simp_all add: verify_row_def check_field_def warn_def)

lemma add_contacts_strings:
  assumes cols: "set [''email'', ''phone'', ''first name'', ''last name''] \<subseteq> set (columns df)"
    and strs: "\<forall>i\<in>set idx. \<exists>p e. getitem series_str (iloc df i) ''phone'' = Inr (Str p)
                 \<and> getitem series_str (iloc df i) ''email'' = Inr (Str e)"
  shows "\<exists>acc' w'. add_contacts series_str df idx acc w = (Inr acc', w')"
  using strs
proof (induction idx arbitrary: acc w)
  case Nil
  then show ?case by simp
next
  case (Cons i rest)
  obtain p e where pe: "getitem series_str (iloc df i) ''phone'' = Inr (Str p)"
    "getitem series_str (iloc df i) ''email'' = Inr (Str e)"
    using Cons.prems by auto
  obtain fn ln where n: "getitem series_str (iloc df i) ''first name'' = Inr fn"
    "getitem series_str (iloc df i) ''last name'' = Inr ln"
    using cols getitem_present [of _ df series_str i] by (meson list.set_intros subsetD)
  obtain w1 where v: "verify_row series_str (iloc df i) w
      = (Inr (search phone_re p \<and> search email_re e), w1)"
    using verify_row_strings [OF pe n] by blast
  obtain block where b: "vcard series_str (iloc df i) = Inr block"
    using vcard_present [OF cols] by blast
  have "\<forall>i\<in>set rest. \<exists>p e. getitem series_str (iloc df i) ''phone'' = Inr (Str p)
                 \<and> getitem series_str (iloc df i) ''email'' = Inr (Str e)"
    using Cons.prems by simp
  from Cons.IH [OF this] v b show ?case
    by (simp add: Let_def)
qed


subsection \<open>Writing the file\<close>

lemma publish_new:
  "\<not> isfile w (output a) \<Longrightarrow>
     publish a doc n w =
       (Inr (), py_print (str_nat n @ '' contacts successfully published to file '' @ output a)
                  (write_line (output a) doc w))"
  by (simp add: publish_def lower_y)

lemma publish_yes:
  "isfile w (output a) \<Longrightarrow> stdin w = r # rest \<Longrightarrow> lower r = ''y'' \<Longrightarrow>
     publish a doc n w =
       (Inr (), py_print (str_nat n @ '' contacts successfully published to file '' @ output a)
                  (write_line (output a) doc
                     (w\<lparr>stdin := rest,
                        stdout := stdout w @ ''Overwrite file '' @ output a @ ''? (Y or N): ''\<rparr>)))"
  by (simp add: publish_def py_input_def)

lemma publish_no:
  "isfile w (output a) \<Longrightarrow> stdin w = r # rest \<Longrightarrow> lower r \<noteq> ''y'' \<Longrightarrow>
     publish a doc n w =
       (Inr (), py_print ''Results not written to file''
                  (w\<lparr>stdin := rest,
                     stdout := stdout w @ ''Overwrite file '' @ output a @ ''? (Y or N): ''\<rparr>))"
  by (simp add: publish_def py_input_def)

lemma publish_eof:
  "isfile w (output a) \<Longrightarrow> stdin w = [] \<Longrightarrow>
     publish a doc n w =
       (Inl EOFError, w\<lparr>stdout := stdout w @ ''Overwrite file '' @ output a @ ''? (Y or N): ''\<rparr>)"
  by (simp add: publish_def py_input_def)

lemma publish_error: "publish a doc n w = (Inl e, w') \<Longrightarrow> e = EOFError"
  by (auto simp: publish_def py_input_def split: if_splits list.splits)

lemma publish_writes:
  assumes "\<not> isfile w (output a) \<or> (stdin w = r # rest \<and> lower r = ''y'')"
  shows "fst (publish a doc n w) = Inr ()
       \<and> fs (snd (publish a doc n w)) = (fs w)(output a \<mapsto> doc @ [newline])
       \<and> suffix (str_nat n @ '' contacts successfully published to file '' @ output a @ [newline])
           (stdout (snd (publish a doc n w)))"
proof (cases "isfile w (output a)")
  case True
  with assms have "stdin w = r # rest" "lower r = ''y''" by auto
  from publish_yes [OF True this] show ?thesis
    by (simp add: write_line_def suffix_def)
next
  case False
  from publish_new [OF False] show ?thesis
    by (simp add: write_line_def suffix_def)
qed

lemma publish_keeps:
  assumes "isfile w (output a)" "stdin w = [] \<or> (stdin w = r # rest \<and> lower r \<noteq> ''y'')"
  shows "fs (snd (publish a doc n w)) = fs w
       \<and> (fst (publish a doc n w) = Inr () \<longrightarrow>
            suffix (''Results not written to file'' @ [newline]) (stdout (snd (publish a doc n w))))"
proof (cases "stdin w")
  case Nil
  from publish_eof [OF assms(1) Nil] show ?thesis by simp
next
  case (Cons x xs)
  with assms(2) have "stdin w = r # rest" "lower r \<noteq> ''y''" by auto
  from publish_no [OF assms(1) this] show ?thesis
    by (simp add: suffix_def)
qed

subsection \<open>The run as a whole\<close>

lemma main_proceeds:
  assumes "fs w (input a) \<noteq> None" "last4 (input a) = ''.csv''" "last4 (output a) = ''.vcf''"
    and "read_csv parse (input a) w = Inr df"
    and "\<forall>k\<in>set required_cols. lower k \<in> lower ` set (columns df)"
  shows "main parse series_str a w =
           (case add_contacts series_str (df\<lparr>columns := map lower (columns df)\<rparr>)
                   [0..<nrows df] ([], 0) w of
              (Inl e, w1) \<Rightarrow> (Inl e, w1)
            | (Inr (doc, n), w1) \<Rightarrow>
                publish a doc n
                  (py_print (''Successfully generated contact file for '' @ str_nat n
                             @ '' people'') w1))"
  using assms by (simp add: main_def isfile_def Let_def list_all_iff)

lemma main_missing:
  assumes "fs w (input a) \<noteq> None" "last4 (input a) = ''.csv''" "last4 (output a) = ''.vcf''"
    and "read_csv parse (input a) w = Inr df"
    and "\<exists>k\<in>set required_cols. lower k \<notin> lower ` set (columns df)"
  shows "main parse series_str a w = (Inl (ValueError missing_cols), w)"
  using assms by (simp add: main_def isfile_def Let_def list_all_iff)

lemma main_Inr:
  assumes "main parse series_str a w = (Inr (), w')"
  shows "\<exists>parsed doc n w1.
           fs w (input a) \<noteq> None \<and> last4 (input a) = ''.csv'' \<and> last4 (output a) = ''.vcf''
         \<and> read_csv parse (input a) w = Inr parsed
         \<and> list_all (\<lambda>col. lower col \<in> set (map lower (columns parsed))) required_cols
         \<and> add_contacts series_str (parsed\<lparr>columns := map lower (columns parsed)\<rparr>)
               [0..<nrows parsed] ([], 0) w = (Inr (doc, n), w1)
         \<and> publish a doc n
              (py_print (''Successfully generated contact file for '' @ str_nat n @ '' people'') w1)
             = (Inr (), w')"
  using assms
  by (auto simp: main_def Let_def isfile_def split: if_splits sum.splits prod.splits)

text \<open>
  Every run ends in one of three ways: before the loop, with the world untouched; in the
  loop, with an error; or in the last step, after a loop that ended normally.
\<close>

lemma main_cases:
  assumes "main parse series_str a w = (res, w')"
  shows "(w' = w \<and> (\<exists>e. res = Inl e))
       \<or> (\<exists>df idx e. add_contacts series_str df idx ([], 0) w = (Inl e, w') \<and> res = Inl e)
       \<or> (\<exists>df idx doc n w1.
             add_contacts series_str df idx ([], 0) w = (Inr (doc, n), w1)
           \<and> publish a doc n
                (py_print (''Successfully generated contact file for '' @ str_nat n
                           @ '' people'') w1)
               = (res, w'))"
proof (cases "isfile w (input a) \<and> last4 (input a) = ''.csv'' \<and> last4 (output a) = ''.vcf''")
  case False
  have "main parse series_str a w = (res, w) \<and> (\<exists>e. res = Inl e)"
    using assms False by (auto simp: main_def split: if_splits)
  with assms show ?thesis by simp
next
  case checks: True
  show ?thesis
  proof (cases "read_csv parse (input a) w")
    case (Inl e)
    with assms checks show ?thesis by (auto simp: main_def)
  next
    case (Inr parsed)
    define df where "df = parsed\<lparr>columns := map lower (columns parsed)\<rparr>"
    show ?thesis
    proof (cases "list_all (\<lambda>col. lower col \<in> set (columns df)) required_cols")
      case False
      with assms checks Inr show ?thesis by (auto simp: main_def df_def)
    next
      case True
      obtain r1 w1 where l: "add_contacts series_str df [0..<nrows df] ([], 0) w = (r1, w1)"
        by (cases "add_contacts series_str df [0..<nrows df] ([], 0) w") auto
      show ?thesis
      proof (cases r1)
        case (Inl e)
        have "main parse series_str a w = (Inl e, w1)"
          using checks Inr True l Inl by (simp add: main_def df_def Let_def)
        with assms l Inl show ?thesis by auto
      next
        case r: (Inr acc)
        obtain doc n where acc: "acc = (doc, n)" by (cases acc) auto
        have "main parse series_str a w =
                publish a doc n
                  (py_print (''Successfully generated contact file for '' @ str_nat n
                             @ '' people'') w1)"
          using checks Inr True l r acc by (simp add: main_def df_def Let_def)
        with assms l r acc show ?thesis by metis
      qed
    qed
  qed
qed

text \<open>
  Once the checks have passed and the four labels are there, a run ends normally, or
  with \<open>TypeError\<close> (a value that is not a string was searched), or with \<open>EOFError\<close>
  (no answer to the prompt).
\<close>

lemma main_outcomes:
  assumes "isfile w (input a)" "last4 (input a) = ''.csv''" "last4 (output a) = ''.vcf''"
    and "read_csv parse (input a) w = Inr df"
    and "\<forall>k\<in>set required_cols. lower k \<in> lower ` set (columns df)"
  shows "fst (main parse series_str a w) \<in> {Inr (), Inl TypeError, Inl EOFError}"
proof -
  define ci where "ci = df\<lparr>columns := map lower (columns df)\<rparr>"
  have "set (map lower required_cols) \<subseteq> set (columns ci)"
    using assms(5) by (auto simp: ci_def)
  then have cols: "set [''email'', ''phone'', ''first name'', ''last name''] \<subseteq> set (columns ci)"
    unfolding lower_required by auto
  have m: "main parse series_str a w =
           (case add_contacts series_str ci [0..<nrows df] ([], 0) w of
              (Inl e, w1) \<Rightarrow> (Inl e, w1)
            | (Inr (doc, n), w1) \<Rightarrow>
                publish a doc n
                  (py_print (''Successfully generated contact file for '' @ str_nat n
                             @ '' people'') w1))"
    unfolding ci_def using assms by (intro main_proceeds) (auto simp: isfile_def)
  obtain r1 w1 where l: "add_contacts series_str ci [0..<nrows df] ([], 0) w = (r1, w1)"
    by (cases "add_contacts series_str ci [0..<nrows df] ([], 0) w") auto
  show ?thesis
  proof (cases r1)
    case (Inl e)
    with l have "e = TypeError" using add_contacts_error [OF cols] by blast
    with m l Inl show ?thesis by simp
  next
    case (Inr acc)
    obtain r2 w2 where p: "publish a (fst acc) (snd acc)
        (py_print (''Successfully generated contact file for '' @ str_nat (snd acc)
                   @ '' people'') w1) = (r2, w2)"
      by (cases "publish a (fst acc) (snd acc)
        (py_print (''Successfully generated contact file for '' @ str_nat (snd acc)
                   @ '' people'') w1)") auto
    have "r2 = Inr () \<or> r2 = Inl EOFError"
      using publish_error [of a "fst acc" "snd acc" _ _ w2] p by (cases r2) auto
    with m l Inr p show ?thesis by (auto simp: case_prod_beta)
  qed
qed


text \<open>
  On a table whose phone and email values are all strings, the run ends normally as soon
  as the prompt, if there is one, gets an answer; the loop has produced one card for
  each row.
\<close>

lemma main_completes_on_strings:
  assumes "isfile w (input a)" "last4 (input a) = ''.csv''" "last4 (output a) = ''.vcf''"
    and "read_csv parse (input a) w = Inr df"
    and "\<forall>k\<in>set required_cols. lower k \<in> lower ` set (columns df)"
    and "\<forall>i<nrows df. \<exists>p e.
           getitem series_str (iloc (df\<lparr>columns := map lower (columns df)\<rparr>) i) ''phone''
             = Inr (Str p)
         \<and> getitem series_str (iloc (df\<lparr>columns := map lower (columns df)\<rparr>) i) ''email''
             = Inr (Str e)"
    and "\<not> isfile w (output a) \<or> stdin w \<noteq> []"
  shows "fst (main parse series_str a w) = Inr ()
       \<and> (\<exists>blocks. map (\<lambda>i. vcard series_str (iloc (df\<lparr>columns := map lower (columns df)\<rparr>) i))
                      [0..<nrows df] = map Inr blocks
                  \<and> length blocks = nrows df)"
proof -
  define ci where "ci = df\<lparr>columns := map lower (columns df)\<rparr>"
  have "set (map lower required_cols) \<subseteq> set (columns ci)"
    using assms(5) by (auto simp: ci_def)
  then have cols: "set [''email'', ''phone'', ''first name'', ''last name''] \<subseteq> set (columns ci)"
    unfolding lower_required by auto
  have strs: "\<forall>i\<in>set [0..<nrows df]. \<exists>p e. getitem series_str (iloc ci i) ''phone'' = Inr (Str p)
                 \<and> getitem series_str (iloc ci i) ''email'' = Inr (Str e)"
    using assms(6) by (simp add: ci_def)
  from add_contacts_strings [OF cols strs] obtain acc' w1 where
    l: "add_contacts series_str ci [0..<nrows df] ([], 0) w = (Inr acc', w1)" by blast
  from add_contacts_done [OF l] obtain blocks where
    b: "map (\<lambda>i. vcard series_str (iloc ci i)) [0..<nrows df] = map Inr blocks" by blast
  then have len: "length blocks = nrows df"
    by (metis length_map length_upt minus_nat.diff_0)
  define w2 where
    "w2 = py_print (''Successfully generated contact file for '' @ str_nat (snd acc')
                    @ '' people'') w1"
  have m: "main parse series_str a w = publish a (fst acc') (snd acc') w2"
    using assms(1-5) l
    by (simp add: main_proceeds isfile_def ci_def w2_def case_prod_beta)
  have fr: "fs w2 = fs w" "stdin w2 = stdin w"
    using add_contacts_frame [OF l] by (simp_all add: w2_def)
  have "fst (publish a (fst acc') (snd acc') w2) = Inr ()"
  proof (cases "isfile w2 (output a)")
    case False
    from publish_new [OF False] show ?thesis by simp
  next
    case True
    then have "stdin w2 \<noteq> []" using assms(7) fr by (simp add: isfile_def)
    then obtain r rest where s: "stdin w2 = r # rest" by (cases "stdin w2") auto
    show ?thesis
      using publish_yes [OF True s] publish_no [OF True s] by (cases "lower r = ''y''") simp_all
  qed
  with m b len show ?thesis by (auto simp: ci_def)
qed

subsection \<open>Evaluations used in the examples\<close>

lemma ex_lower:
  "map lower [''First name'', ''Last name'', ''Email'', ''Phone'']
     = [''first name'', ''last name'', ''email'', ''phone'']"
  by code_simp

lemma ex_search:
  "search phone_re ''555-111-2222''" "search phone_re ''5551112222''"
  "search email_re ''jane@x.com''" "\<not> search email_re ''bad-email''"
  by code_simp+

lemma upt_2: "[0..<2] = [0, Suc 0]"
  by (simp add: numeral_2_eq_2)



section \<open>The claims\<close>

subsection \<open>C1: one card for each row, whatever the validation says\<close>

text \<open>
  C1 says that every table with the four required columns and N rows gives a document
  of exactly N cards in row order, that a row whose phone or email fails the check is
  warned about and still included (the check never removes a row and never aborts the
  run), and that the count reported is N.

  For tables whose phone and email values are strings this is what the program does
  (\<open>main_completes_on_strings\<close>, \<open>add_contacts_done\<close>). It is not what it does on every
  table. The parser gives the float \<open>nan\<close> for an empty field and a number for a column
  of digits only, and \<open>re.search\<close> raises \<open>TypeError\<close> on both. In the first table below
  the only row has no email; in the second the phone column was read as a number. Both
  runs end in \<open>verify_row\<close> with \<open>TypeError\<close>: no card, no count, nothing printed and
  no file written, where the docstring of \<open>verify_row\<close> promises a truth value.
\<close>

theorem blank_email_aborts:
  "main (\<lambda>content. Inr \<lparr>columns = [''First name'', ''Last name'', ''Email'', ''Phone''], nrows = 1,
            cell_at = (\<lambda>i j. [Str ''Jane'', Str ''Doe'', Other ''nan'', Str ''555-111-2222''] ! j)\<rparr>)
     series_str \<lparr>input = ''contacts.csv'', output = ''contact_file.vcf''\<rparr>
     \<lparr>fs = [''contacts.csv'' \<mapsto> content], stdin = [], stdout = []\<rparr>
   = (Inl TypeError, \<lparr>fs = [''contacts.csv'' \<mapsto> content], stdin = [], stdout = []\<rparr>)
   \<and> main (\<lambda>content. Inr \<lparr>columns = [''First name'', ''Last name'', ''Email'', ''Phone''], nrows = 1,
            cell_at = (\<lambda>i j. [Str ''Bob'', Str ''Roe'', Str ''bob@x.com'', Other ''5551112222''] ! j)\<rparr>)
     series_str \<lparr>input = ''contacts.csv'', output = ''contact_file.vcf''\<rparr>
     \<lparr>fs = [''contacts.csv'' \<mapsto> content], stdin = [], stdout = []\<rparr>
   = (Inl TypeError, \<lparr>fs = [''contacts.csv'' \<mapsto> content], stdin = [], stdout = []\<rparr>)"
proof -
  have p: "search phone_re ''555-111-2222''" by code_simp
  show ?thesis
    using ex_lower p
    by (simp add: main_def isfile_def last4_def read_csv_def required_cols_def Let_def
          iloc_def verify_row_def check_field_def getitem_def)
qed

subsection \<open>C2: the card template and the written document\<close>

text \<open>
  C2: the card of a record is the fixed template, with the lines \<open>BEGIN:VCARD\<close>,
  \<open>VERSION:3.0\<close>, \<open>EMAIL:\<close>, \<open>TEL;TYPE=cell,voice:\<close>, \<open>FN:\<close> and \<open>END:VCARD\<close> in this
  order and the values of the record put in as they are, nothing escaped; what is written
  to the output file is the cards of all rows in row order, followed by one more line
  terminator.

  The first part is \<open>str.format\<close> run on the template; the second is the lookup of the
  four values of a row; the third is a run that ends normally and writes (the output
  path is new, or the answer to the prompt lower-cases to \<open>y\<close>).
\<close>

theorem card_template_and_document:
  "format vcard_format [(''email'', em), (''number'', ph), (''fname'', fn), (''lname'', ln)]
     = Inr (''BEGIN:VCARD\<newline>VERSION:3.0\<newline>EMAIL:'' @ text_of em
            @ ''\<newline>TEL;TYPE=cell,voice:'' @ text_of ph
            @ ''\<newline>FN:'' @ text_of fn @ '' '' @ text_of ln @ ''\<newline>END:VCARD\<newline>'')
   \<and> (getitem series_str row ''email'' = Inr em \<and> getitem series_str row ''phone'' = Inr ph
        \<and> getitem series_str row ''first name'' = Inr fn
        \<and> getitem series_str row ''last name'' = Inr ln \<longrightarrow>
      vcard series_str row
        = Inr (''BEGIN:VCARD\<newline>VERSION:3.0\<newline>EMAIL:'' @ text_of em
               @ ''\<newline>TEL;TYPE=cell,voice:'' @ text_of ph
               @ ''\<newline>FN:'' @ text_of fn @ '' '' @ text_of ln @ ''\<newline>END:VCARD\<newline>''))
   \<and> (fst (main parse series_str a w) = Inr () \<and> read_csv parse (input a) w = Inr df
        \<and> (\<not> isfile w (output a) \<or> (stdin w = r # rest \<and> lower r = ''y'')) \<longrightarrow>
      (\<exists>blocks.
          map (\<lambda>i. vcard series_str (iloc (df\<lparr>columns := map lower (columns df)\<rparr>) i))
            [0..<nrows df] = map Inr blocks
        \<and> fs (snd (main parse series_str a w))
            = (fs w)(output a \<mapsto> concat blocks @ [newline])))"
proof -
  have doc: "\<exists>blocks.
          map (\<lambda>i. vcard series_str (iloc (df\<lparr>columns := map lower (columns df)\<rparr>) i))
            [0..<nrows df] = map Inr blocks
        \<and> fs (snd (main parse series_str a w))
            = (fs w)(output a \<mapsto> concat blocks @ [newline])"
    if h: "fst (main parse series_str a w) = Inr ()" "read_csv parse (input a) w = Inr df"
      "\<not> isfile w (output a) \<or> (stdin w = r # rest \<and> lower r = ''y'')"
  proof -
    have "main parse series_str a w = (Inr (), snd (main parse series_str a w))"
      using h(1) by (cases "main parse series_str a w") auto
    from main_Inr [OF this] h(2) obtain doc n w1 where
      l: "add_contacts series_str (df\<lparr>columns := map lower (columns df)\<rparr>)
            [0..<nrows df] ([], 0) w = (Inr (doc, n), w1)" and
      p: "publish a doc n
            (py_print (''Successfully generated contact file for '' @ str_nat n
                       @ '' people'') w1) = (Inr (), snd (main parse series_str a w))"
      by auto
    from add_contacts_done [OF l] obtain blocks where
      b: "map (\<lambda>i. vcard series_str (iloc (df\<lparr>columns := map lower (columns df)\<rparr>) i))
            [0..<nrows df] = map Inr blocks" "doc = concat blocks"
      by auto
    define w2 where
      "w2 = py_print (''Successfully generated contact file for '' @ str_nat n @ '' people'') w1"
    have fr: "fs w2 = fs w" "stdin w2 = stdin w"
      using add_contacts_frame [OF l] by (auto simp: w2_def)
    then have "\<not> isfile w2 (output a) \<or> (stdin w2 = r # rest \<and> lower r = ''y'')"
      using h(3) by (simp add: isfile_def)
    from publish_writes [OF this, of doc n] p
    have "fs (snd (main parse series_str a w)) = (fs w)(output a \<mapsto> doc @ [newline])"
      using fr by (simp add: w2_def)
    with b show ?thesis by auto
  qed
  show ?thesis
    using doc by (simp add: format_vcard vcard_def)
qed

text \<open>
  The scenario of the specification: two rows, the second with a bad email, and an
  output path that does not exist yet. Both cards are written, then the extra line end.
\<close>

theorem card_template_and_document_witness:
  "fst (main (\<lambda>content. Inr \<lparr>columns = [''First name'', ''Last name'', ''Email'', ''Phone''],
                  nrows = 2,
                  cell_at = (\<lambda>i j. [[Str ''Jane'', Str ''Doe'', Str ''jane@x.com'', Str ''555-111-2222''],
                                     [Str ''Bob'', Str ''Roe'', Str ''bad-email'', Str ''5551112222'']] ! i ! j)\<rparr>)
          (\<lambda>sub. []) \<lparr>input = ''contacts.csv'', output = ''contact_file.vcf''\<rparr>
          \<lparr>fs = [''contacts.csv'' \<mapsto> []], stdin = [], stdout = []\<rparr>) = Inr ()
   \<and> fs (snd (main (\<lambda>content. Inr \<lparr>columns = [''First name'', ''Last name'', ''Email'', ''Phone''],
                  nrows = 2,
                  cell_at = (\<lambda>i j. [[Str ''Jane'', Str ''Doe'', Str ''jane@x.com'', Str ''555-111-2222''],
                                     [Str ''Bob'', Str ''Roe'', Str ''bad-email'', Str ''5551112222'']] ! i ! j)\<rparr>)
          (\<lambda>sub. []) \<lparr>input = ''contacts.csv'', output = ''contact_file.vcf''\<rparr>
          \<lparr>fs = [''contacts.csv'' \<mapsto> []], stdin = [], stdout = []\<rparr>)) ''contact_file.vcf''
     = Some (''BEGIN:VCARD\<newline>VERSION:3.0\<newline>EMAIL:jane@x.com\<newline>TEL;TYPE=cell,voice:555-111-2222\<newline>FN:Jane Doe\<newline>END:VCARD\<newline>''
           @ ''BEGIN:VCARD\<newline>VERSION:3.0\<newline>EMAIL:bad-email\<newline>TEL;TYPE=cell,voice:5551112222\<newline>FN:Bob Roe\<newline>END:VCARD\<newline>''
           @ ''\<newline>'')"
proof -
  let ?df = "\<lparr>columns = [''First name'', ''Last name'', ''Email'', ''Phone''],
                  nrows = 2,
                  cell_at = (\<lambda>i j. [[Str ''Jane'', Str ''Doe'', Str ''jane@x.com'', Str ''555-111-2222''],
                                     [Str ''Bob'', Str ''Roe'', Str ''bad-email'', Str ''5551112222'']] ! i ! j)\<rparr>"
  let ?a = "\<lparr>input = ''contacts.csv'', output = ''contact_file.vcf''\<rparr>"
  let ?w = "\<lparr>fs = [''contacts.csv'' \<mapsto> []], stdin = [], stdout = []\<rparr>"
  let ?m = "main (\<lambda>content. Inr ?df) (\<lambda>sub. []) ?a ?w"
  have run: "fst ?m = Inr ()"
    using ex_lower ex_search lower_y
    by (simp add: main_def isfile_def last4_def read_csv_def required_cols_def Let_def
          iloc_def verify_row_def check_field_def warn_def getitem_def vcard_def format_vcard
          publish_def upt_2)
  have rd: "read_csv (\<lambda>content. Inr ?df) (input ?a) ?w = Inr ?df"
    by (simp add: read_csv_def)
  have new: "\<not> isfile ?w (output ?a)" by (simp add: isfile_def)
  from card_template_and_document
         [where parse = "\<lambda>content. Inr ?df" and series_str = "\<lambda>sub. []" and a = ?a and w = ?w
            and df = ?df] run rd new
  obtain blocks where
    b: "map (\<lambda>i. vcard (\<lambda>sub. []) (iloc (?df\<lparr>columns := map lower (columns ?df)\<rparr>) i))
            [0..<nrows ?df] = map Inr blocks"
       "fs (snd ?m) = (fs ?w)(output ?a \<mapsto> concat blocks @ [newline])"
    by blast
  have "map (\<lambda>i. vcard (\<lambda>sub. []) (iloc (?df\<lparr>columns := map lower (columns ?df)\<rparr>) i))
            [0..<nrows ?df]
        = map Inr [''BEGIN:VCARD\<newline>VERSION:3.0\<newline>EMAIL:jane@x.com\<newline>TEL;TYPE=cell,voice:555-111-2222\<newline>FN:Jane Doe\<newline>END:VCARD\<newline>'',
                   ''BEGIN:VCARD\<newline>VERSION:3.0\<newline>EMAIL:bad-email\<newline>TEL;TYPE=cell,voice:5551112222\<newline>FN:Bob Roe\<newline>END:VCARD\<newline>'']"
    using ex_lower
    by (simp add: iloc_def getitem_def vcard_def format_vcard upt_2)
  with b(1) have "blocks = [''BEGIN:VCARD\<newline>VERSION:3.0\<newline>EMAIL:jane@x.com\<newline>TEL;TYPE=cell,voice:555-111-2222\<newline>FN:Jane Doe\<newline>END:VCARD\<newline>'',
                   ''BEGIN:VCARD\<newline>VERSION:3.0\<newline>EMAIL:bad-email\<newline>TEL;TYPE=cell,voice:5551112222\<newline>FN:Bob Roe\<newline>END:VCARD\<newline>'']"
    by (auto simp: map_eq_Cons_conv)
  with b(2) run show ?thesis by (simp add: newline_def)
qed


subsection \<open>C3: how the two patterns are applied\<close>

text \<open>
  C3 says that the phone check and the email check are both unanchored substring
  searches: a valid phone, or a valid email, inside a longer string, for instance with
  garbage appended, still passes. For the phone this is false: the valid phone
  \<open>555-123-4567\<close> passes and the same phone with an \<open>x\<close> appended does not.
\<close>

theorem phone_trailing_garbage_counterexample:
  "re_search phone_re (Str ''555-123-4567'') = Inr True
   \<and> re_search phone_re (Str (''555-123-4567'' @ ''x'')) = Inr False"
proof -
  have "search phone_re ''555-123-4567''" by code_simp
  moreover have "\<not> search phone_re (''555-123-4567'' @ ''x'')" by code_simp
  ultimately show ?thesis by simp
qed

text \<open>
  C3 as amended. The email check is an unanchored substring search: a string that
  holds a passing email anywhere inside it passes. The phone check is not: its pattern
  begins with \<open>^\<close> and ends with \<open>$\<close>, so the value passes exactly when the pattern
  between the anchors matches from the first character to the end of the value, or to
  just before one final line terminator; a passing value therefore holds nothing but
  digits, \<open>+\<close>, \<open>-\<close>, blanks, parentheses and that line terminator.
\<close>

theorem email_unanchored_phone_anchored:
  "(re_search email_re (Str e) = Inr True \<longrightarrow> re_search email_re (Str (pre @ e @ post)) = Inr True)
   \<and> (re_search phone_re (Str s) = Inr True \<longleftrightarrow>
        (\<exists>q\<in>set (rmatch phone_body (0, s)). snd q = [] \<or> snd q = [newline]))
   \<and> (re_search phone_re (Str s) = Inr True \<longrightarrow> list_all (\<lambda>c. in_class c phone_alphabet) s)"
  using search_embedded [OF anchor_free_email, of e pre post] phone_anchored [of s]
    phone_alphabet_only [of s]
  by simp

theorem email_unanchored_phone_anchored_witness:
  "re_search email_re (Str ''a@b.co'') = Inr True
   \<and> re_search email_re (Str (''<'' @ ''a@b.co'' @ ''>;'')) = Inr True
   \<and> re_search phone_re (Str ''555-123-4567'') = Inr True
   \<and> (\<exists>q\<in>set (rmatch phone_body (0, ''555-123-4567'')). snd q = [] \<or> snd q = [newline])
   \<and> list_all (\<lambda>c. in_class c phone_alphabet) ''555-123-4567''"
proof -
  have e: "re_search email_re (Str ''a@b.co'') = Inr True"
    unfolding re_search.simps by code_simp
  have p: "re_search phone_re (Str ''555-123-4567'') = Inr True"
    unfolding re_search.simps by code_simp
  show ?thesis
    using e p email_unanchored_phone_anchored [of "''a@b.co''" "''<''" "''>;''" "''555-123-4567''"]
    by blast
qed

subsection \<open>C4: an existing output file is overwritten only on confirmation\<close>

text \<open>
  C4: when the output path exists and the answer to the prompt does not lower-case to
  \<open>y\<close>, nothing is written: every file is as it was, and the run says that the results
  were not written. The file is written if and only if the answer lower-cases to \<open>y\<close> or
  the path did not exist.

  The first part holds for every run, also one that raised before the prompt or got no
  answer at all. The second part is about runs that end normally: with a new path or a
  \<open>y\<close>, the output path holds the document and its line terminator, every other file is
  as it was, and the last line printed reports the publication.
\<close>

theorem overwrite_only_on_confirmation:
  "(isfile w (output a) \<and> (stdin w = [] \<or> (stdin w = r # rest \<and> lower r \<noteq> ''y'')) \<longrightarrow>
      fs (snd (main parse series_str a w)) = fs w
      \<and> (fst (main parse series_str a w) = Inr () \<longrightarrow>
           suffix (''Results not written to file'' @ [newline])
             (stdout (snd (main parse series_str a w)))))
   \<and> (fst (main parse series_str a w) = Inr ()
        \<and> (\<not> isfile w (output a) \<or> (stdin w = r # rest \<and> lower r = ''y'')) \<longrightarrow>
      (\<exists>doc n. fs (snd (main parse series_str a w)) = (fs w)(output a \<mapsto> doc @ [newline])
         \<and> suffix (str_nat n @ '' contacts successfully published to file '' @ output a
                    @ [newline])
             (stdout (snd (main parse series_str a w)))))"
proof -
  obtain res w' where m: "main parse series_str a w = (res, w')"
    by (cases "main parse series_str a w") auto
  from main_cases [OF m] consider
    (early) "w' = w" "\<exists>e. res = Inl e"
    | (loop) df idx e where "add_contacts series_str df idx ([], 0) w = (Inl e, w')" "res = Inl e"
    | (publish) df idx doc n w1 where
        "add_contacts series_str df idx ([], 0) w = (Inr (doc, n), w1)"
        "publish a doc n
           (py_print (''Successfully generated contact file for '' @ str_nat n
                      @ '' people'') w1) = (res, w')"
    by blast
  then show ?thesis
  proof cases
    case early
    then show ?thesis by (auto simp: m)
  next
    case loop
    then show ?thesis using add_contacts_frame [OF loop(1)] by (auto simp: m)
  next
    case publish
    define w2 where
      "w2 = py_print (''Successfully generated contact file for '' @ str_nat n @ '' people'') w1"
    have fr: "fs w2 = fs w" "stdin w2 = stdin w" "isfile w2 (output a) = isfile w (output a)"
      using add_contacts_frame [OF publish(1)] by (simp_all add: w2_def isfile_def)
    have p: "publish a doc n w2 = (res, w')"
      using publish(2) by (simp add: w2_def)
    have no: "fs w' = fs w
        \<and> (res = Inr () \<longrightarrow> suffix (''Results not written to file'' @ [newline]) (stdout w'))"
      if "isfile w (output a)" "stdin w = [] \<or> (stdin w = r # rest \<and> lower r \<noteq> ''y'')"
      using publish_keeps [of w2 a r rest doc n] that fr p by simp
    have yes: "\<exists>doc n. fs w' = (fs w)(output a \<mapsto> doc @ [newline])
         \<and> suffix (str_nat n @ '' contacts successfully published to file '' @ output a
                    @ [newline]) (stdout w')"
      if "\<not> isfile w (output a) \<or> (stdin w = r # rest \<and> lower r = ''y'')"
      using publish_writes [of w2 a r rest doc n] that fr p by auto
    show ?thesis using no yes by (simp add: m)
  qed
qed


text \<open>
  One row, an output file that is already there. With the answer \<open>n\<close> the old file stays
  and the last line says so; with the answer \<open>Y\<close> the file is written.
\<close>

theorem overwrite_only_on_confirmation_witness:
  "fs (snd (main (\<lambda>content. Inr \<lparr>columns = [''First name'', ''Last name'', ''Email'', ''Phone''], nrows = 1,
              cell_at = (\<lambda>i j. [Str ''Jane'', Str ''Doe'', Str ''jane@x.com'', Str ''555-111-2222''] ! j)\<rparr>)
        (\<lambda>sub. []) \<lparr>input = ''contacts.csv'', output = ''out.vcf''\<rparr>
        \<lparr>fs = [''contacts.csv'' \<mapsto> [], ''out.vcf'' \<mapsto> ''old''], stdin = [''n''], stdout = []\<rparr>))
     = [''contacts.csv'' \<mapsto> [], ''out.vcf'' \<mapsto> ''old'']
   \<and> suffix (''Results not written to file'' @ [newline])
       (stdout (snd (main (\<lambda>content. Inr \<lparr>columns = [''First name'', ''Last name'', ''Email'', ''Phone''], nrows = 1,
              cell_at = (\<lambda>i j. [Str ''Jane'', Str ''Doe'', Str ''jane@x.com'', Str ''555-111-2222''] ! j)\<rparr>)
        (\<lambda>sub. []) \<lparr>input = ''contacts.csv'', output = ''out.vcf''\<rparr>
        \<lparr>fs = [''contacts.csv'' \<mapsto> [], ''out.vcf'' \<mapsto> ''old''], stdin = [''n''], stdout = []\<rparr>)))
   \<and> (\<exists>doc n.
        fs (snd (main (\<lambda>content. Inr \<lparr>columns = [''First name'', ''Last name'', ''Email'', ''Phone''], nrows = 1,
              cell_at = (\<lambda>i j. [Str ''Jane'', Str ''Doe'', Str ''jane@x.com'', Str ''555-111-2222''] ! j)\<rparr>)
        (\<lambda>sub. []) \<lparr>input = ''contacts.csv'', output = ''out.vcf''\<rparr>
        \<lparr>fs = [''contacts.csv'' \<mapsto> [], ''out.vcf'' \<mapsto> ''old''], stdin = [''Y''], stdout = []\<rparr>))
          = [''contacts.csv'' \<mapsto> [], ''out.vcf'' \<mapsto> doc @ [newline]]
      \<and> suffix (str_nat n @ '' contacts successfully published to file out.vcf'' @ [newline])
          (stdout (snd (main (\<lambda>content. Inr \<lparr>columns = [''First name'', ''Last name'', ''Email'', ''Phone''], nrows = 1,
              cell_at = (\<lambda>i j. [Str ''Jane'', Str ''Doe'', Str ''jane@x.com'', Str ''555-111-2222''] ! j)\<rparr>)
        (\<lambda>sub. []) \<lparr>input = ''contacts.csv'', output = ''out.vcf''\<rparr>
        \<lparr>fs = [''contacts.csv'' \<mapsto> [], ''out.vcf'' \<mapsto> ''old''], stdin = [''Y''], stdout = []\<rparr>))))"
proof -
  let ?P = "\<lambda>content::string. Inr \<lparr>columns = [''First name'', ''Last name'', ''Email'', ''Phone''], nrows = 1,
              cell_at = (\<lambda>(i::nat) j. [Str ''Jane'', Str ''Doe'', Str ''jane@x.com'', Str ''555-111-2222''] ! j)\<rparr>
              :: error + dataframe"
  let ?S = "\<lambda>sub::series. []::string"
  let ?a = "\<lparr>input = ''contacts.csv'', output = ''out.vcf''\<rparr>"
  let ?wn = "\<lparr>fs = [''contacts.csv'' \<mapsto> [], ''out.vcf'' \<mapsto> ''old''], stdin = [''n''], stdout = []\<rparr>"
  let ?wy = "\<lparr>fs = [''contacts.csv'' \<mapsto> [], ''out.vcf'' \<mapsto> ''old''], stdin = [''Y''], stdout = []\<rparr>"
  have run: "fst (main ?P ?S ?a ?wn) = Inr ()" "fst (main ?P ?S ?a ?wy) = Inr ()"
    using ex_lower ex_search lower_y
    by (simp_all add: main_def isfile_def last4_def read_csv_def required_cols_def Let_def
          iloc_def verify_row_def check_field_def warn_def getitem_def vcard_def format_vcard
          publish_def py_input_def)
  have hn: "isfile ?wn (output ?a)
      \<and> (stdin ?wn = [] \<or> (stdin ?wn = ''n'' # [] \<and> lower ''n'' \<noteq> ''y''))"
    using lower_y by (simp add: isfile_def)
  have hy: "fst (main ?P ?S ?a ?wy) = Inr ()
      \<and> (\<not> isfile ?wy (output ?a) \<or> (stdin ?wy = ''Y'' # [] \<and> lower ''Y'' = ''y''))"
    using lower_y run(2) by simp
  note tn = overwrite_only_on_confirmation
      [where parse = ?P and series_str = ?S and a = ?a and w = ?wn and r = "''n''" and rest = "[]"]
  note ty = overwrite_only_on_confirmation
      [where parse = ?P and series_str = ?S and a = ?a and w = ?wy and r = "''Y''" and rest = "[]"]
  from mp [OF tn [THEN conjunct1] hn] run(1)
  have c1: "fs (snd (main ?P ?S ?a ?wn)) = fs ?wn"
    "suffix (''Results not written to file'' @ [newline]) (stdout (snd (main ?P ?S ?a ?wn)))"
    by blast+
  from mp [OF ty [THEN conjunct2] hy]
  have c2: "\<exists>doc n. fs (snd (main ?P ?S ?a ?wy)) = (fs ?wy)(output ?a \<mapsto> doc @ [newline])
         \<and> suffix (str_nat n @ '' contacts successfully published to file '' @ output ?a
                    @ [newline]) (stdout (snd (main ?P ?S ?a ?wy)))" .
  show ?thesis
    using c1 c2 by simp
qed

subsection \<open>C5: the four fatal conditions\<close>

text \<open>
  C5: an input path that is not an existing file, an input path that does not end in
  \<open>.csv\<close>, an output path that does not end in \<open>.vcf\<close>, and a required column that is
  missing once the labels are in lower case: each raises an error with a message that
  names the fault, before anything is printed or written. The check of the output path
  comes before the input file is parsed: its outcome is the same for every parser, one
  that would fail included.

  In each part the world returned is the world the run started in.
\<close>

theorem fatal_conditions_raise_first:
  "(\<not> isfile w (input a) \<longrightarrow>
      main parse series_str a w = (Inl (ValueError (not_a_file (input a))), w))
   \<and> (isfile w (input a) \<and> last4 (input a) \<noteq> ''.csv'' \<longrightarrow>
      main parse series_str a w = (Inl (ValueError not_csv), w))
   \<and> (isfile w (input a) \<and> last4 (input a) = ''.csv'' \<and> last4 (output a) \<noteq> ''.vcf'' \<longrightarrow>
      main parse series_str a w = (Inl (ValueError not_vcf), w))
   \<and> (isfile w (input a) \<and> last4 (input a) = ''.csv'' \<and> last4 (output a) = ''.vcf''
        \<and> read_csv parse (input a) w = Inr df
        \<and> (\<exists>k\<in>set required_cols. lower k \<notin> lower ` set (columns df)) \<longrightarrow>
      main parse series_str a w = (Inl (ValueError missing_cols), w))
   \<and> (\<not> isfile w (input a) \<or> last4 (input a) \<noteq> ''.csv'' \<or> last4 (output a) \<noteq> ''.vcf'' \<longrightarrow>
      (\<exists>msg. main parse series_str a w = (Inl (ValueError msg), w)))"
  using main_missing [of w a parse df series_str]
  by (auto simp: main_def isfile_def)

theorem fatal_conditions_raise_first_witness:
  "main (\<lambda>content. Inl (ParserError [])) (\<lambda>sub. [])
      \<lparr>input = ''contacts.csv'', output = ''out.vcf''\<rparr>
      \<lparr>fs = Map.empty, stdin = [], stdout = []\<rparr>
     = (Inl (ValueError (not_a_file ''contacts.csv'')), \<lparr>fs = Map.empty, stdin = [], stdout = []\<rparr>)
   \<and> main (\<lambda>content. Inl (ParserError [])) (\<lambda>sub. [])
      \<lparr>input = ''contacts.txt'', output = ''out.vcf''\<rparr>
      \<lparr>fs = [''contacts.txt'' \<mapsto> []], stdin = [], stdout = []\<rparr>
     = (Inl (ValueError not_csv), \<lparr>fs = [''contacts.txt'' \<mapsto> []], stdin = [], stdout = []\<rparr>)
   \<and> main (\<lambda>content. Inl (ParserError [])) (\<lambda>sub. [])
      \<lparr>input = ''contacts.csv'', output = ''out.txt''\<rparr>
      \<lparr>fs = [''contacts.csv'' \<mapsto> []], stdin = [], stdout = []\<rparr>
     = (Inl (ValueError not_vcf), \<lparr>fs = [''contacts.csv'' \<mapsto> []], stdin = [], stdout = []\<rparr>)
   \<and> main (\<lambda>content. Inr \<lparr>columns = [''Name'', ''Email''], nrows = 0, cell_at = (\<lambda>i j. Str [])\<rparr>)
      (\<lambda>sub. []) \<lparr>input = ''contacts.csv'', output = ''out.vcf''\<rparr>
      \<lparr>fs = [''contacts.csv'' \<mapsto> []], stdin = [], stdout = []\<rparr>
     = (Inl (ValueError missing_cols), \<lparr>fs = [''contacts.csv'' \<mapsto> []], stdin = [], stdout = []\<rparr>)"
proof -
  have miss: "\<exists>k\<in>set required_cols. lower k \<notin> lower ` set [''Name'', ''Email'']"
    unfolding required_cols_def by code_simp
  show ?thesis
    using miss
      fatal_conditions_raise_first
        [where parse = "\<lambda>content. Inl (ParserError [])" and series_str = "\<lambda>sub. []"
           and a = "\<lparr>input = ''contacts.csv'', output = ''out.vcf''\<rparr>"
           and w = "\<lparr>fs = Map.empty, stdin = [], stdout = []\<rparr>"]
      fatal_conditions_raise_first
        [where parse = "\<lambda>content. Inl (ParserError [])" and series_str = "\<lambda>sub. []"
           and a = "\<lparr>input = ''contacts.txt'', output = ''out.vcf''\<rparr>"
           and w = "\<lparr>fs = [''contacts.txt'' \<mapsto> []], stdin = [], stdout = []\<rparr>"]
      fatal_conditions_raise_first
        [where parse = "\<lambda>content. Inl (ParserError [])" and series_str = "\<lambda>sub. []"
           and a = "\<lparr>input = ''contacts.csv'', output = ''out.txt''\<rparr>"
           and w = "\<lparr>fs = [''contacts.csv'' \<mapsto> []], stdin = [], stdout = []\<rparr>"]
      fatal_conditions_raise_first
        [where parse = "\<lambda>content. Inr \<lparr>columns = [''Name'', ''Email''], nrows = 0,
                                         cell_at = (\<lambda>i j. Str [])\<rparr>"
           and series_str = "\<lambda>sub. []"
           and a = "\<lparr>input = ''contacts.csv'', output = ''out.vcf''\<rparr>"
           and w = "\<lparr>fs = [''contacts.csv'' \<mapsto> []], stdin = [], stdout = []\<rparr>"
           and df = "\<lparr>columns = [''Name'', ''Email''], nrows = 0, cell_at = (\<lambda>i j. Str [])\<rparr>"]
    by (simp add: isfile_def last4_def read_csv_def)
qed


subsection \<open>C6: the phone check on three values\<close>

text \<open>
  C6: the phone check accepts \<open>555-123-4567\<close> and \<open>(555) 123-4567\<close> and rejects \<open>12345\<close>.
  The check is the first half of \<open>verify_row\<close>: on the first two values it finds a match
  and prints nothing, on the third it finds none and prints the warning, whatever the
  email is. With an email that passes, \<open>verify_row\<close> as a whole returns true on the
  first two and false on the third.
\<close>

theorem phone_check_examples:
  "check_field series_str phone_re ''phone'' ''Bad Phone Number''
     [(''first name'', fn), (''last name'', ln), (''email'', em), (''phone'', Str ''555-123-4567'')] w
     = (Inr True, w)
   \<and> check_field series_str phone_re ''phone'' ''Bad Phone Number''
     [(''first name'', fn), (''last name'', ln), (''email'', em), (''phone'', Str ''(555) 123-4567'')] w
     = (Inr True, w)
   \<and> check_field series_str phone_re ''phone'' ''Bad Phone Number''
     [(''first name'', fn), (''last name'', ln), (''email'', em), (''phone'', Str ''12345'')] w
     = (Inr False, py_print (''Bad Phone Number for '' @ text_of fn @ '' '' @ text_of ln) w)
   \<and> verify_row series_str
     [(''first name'', fn), (''last name'', ln), (''email'', Str ''jane@x.com''),
      (''phone'', Str ''555-123-4567'')] w
     = (Inr True, w)
   \<and> verify_row series_str
     [(''first name'', fn), (''last name'', ln), (''email'', Str ''jane@x.com''),
      (''phone'', Str ''(555) 123-4567'')] w
     = (Inr True, w)
   \<and> verify_row series_str
     [(''first name'', fn), (''last name'', ln), (''email'', Str ''jane@x.com''),
      (''phone'', Str ''12345'')] w
     = (Inr False, py_print (''Bad Phone Number for '' @ text_of fn @ '' '' @ text_of ln) w)"
proof -
  have "search phone_re ''555-123-4567''" by code_simp
  moreover have "search phone_re ''(555) 123-4567''" by code_simp
  moreover have "\<not> search phone_re ''12345''" by code_simp
  ultimately show ?thesis
    using ex_search(3)
    by (simp add: verify_row_def check_field_def warn_def getitem_row4)
qed

subsection \<open>C7: the email check on two values\<close>

text \<open>
  C7: the email check accepts \<open>a.b+c@example.co\<close> and rejects \<open>not-an-email\<close>. The check is
  the second half of \<open>verify_row\<close>; with a phone that passes, \<open>verify_row\<close> as a whole
  returns true on the first and false, after the warning, on the second.
\<close>

theorem email_check_examples:
  "check_field series_str email_re ''email'' ''Bad Email''
     [(''first name'', fn), (''last name'', ln), (''email'', Str ''a.b+c@example.co''), (''phone'', ph)] w
     = (Inr True, w)
   \<and> check_field series_str email_re ''email'' ''Bad Email''
     [(''first name'', fn), (''last name'', ln), (''email'', Str ''not-an-email''), (''phone'', ph)] w
     = (Inr False, py_print (''Bad Email for '' @ text_of fn @ '' '' @ text_of ln) w)
   \<and> verify_row series_str
     [(''first name'', fn), (''last name'', ln), (''email'', Str ''a.b+c@example.co''),
      (''phone'', Str ''555-111-2222'')] w
     = (Inr True, w)
   \<and> verify_row series_str
     [(''first name'', fn), (''last name'', ln), (''email'', Str ''not-an-email''),
      (''phone'', Str ''555-111-2222'')] w
     = (Inr False, py_print (''Bad Email for '' @ text_of fn @ '' '' @ text_of ln) w)"
proof -
  have "search email_re ''a.b+c@example.co''" by code_simp
  moreover have "\<not> search email_re ''not-an-email''" by code_simp
  ultimately show ?thesis
    using ex_search(1)
    by (simp add: verify_row_def check_field_def warn_def getitem_row4)
qed

subsection \<open>C8: column names are matched without regard to case\<close>

text \<open>
  C8: two header spellings that differ in letter case only stand for the same column,
  and the check for the required columns succeeds whenever each of the four names is
  there in some casing.

  Spellings that differ in case only have the same lower-case form; two tables that
  differ in the casing of their headers only give the same run; and with the four names
  present in any casing a run that has passed the path checks raises neither the error
  about missing columns (no \<open>ValueError\<close> at all) nor a \<open>KeyError\<close> for a label.
\<close>

theorem column_names_case_insensitive:
  "(case_variant h h' \<longrightarrow> lower h = lower h')
   \<and> (read_csv parse (input a) w = Inr df \<and> read_csv parse' (input a) w = Inr df'
        \<and> list_all2 case_variant (columns df) (columns df')
        \<and> nrows df = nrows df' \<and> cell_at df = cell_at df' \<longrightarrow>
      main parse series_str a w = main parse' series_str a w)
   \<and> (isfile w (input a) \<and> last4 (input a) = ''.csv'' \<and> last4 (output a) = ''.vcf''
        \<and> read_csv parse (input a) w = Inr df
        \<and> (\<forall>k\<in>set required_cols. \<exists>c\<in>set (columns df). case_variant c k) \<longrightarrow>
      (\<forall>msg. fst (main parse series_str a w) \<noteq> Inl (ValueError msg))
      \<and> (\<forall>k. fst (main parse series_str a w) \<noteq> Inl (KeyError k)))"
proof -
  have a: "lower h = lower h'" if "case_variant h h'"
    using that by (rule case_variant_lower)
  have b: "main parse series_str a w = main parse' series_str a w"
    if "read_csv parse (input a) w = Inr df" "read_csv parse' (input a) w = Inr df'"
      "list_all2 case_variant (columns df) (columns df')"
      "nrows df = nrows df'" "cell_at df = cell_at df'"
  proof -
    have "map lower (columns df) = map lower (columns df')"
      using that(3) by (induction rule: list_all2_induct) (auto dest: case_variant_lower)
    then have "df\<lparr>columns := map lower (columns df)\<rparr> = df'\<lparr>columns := map lower (columns df')\<rparr>"
      using that(4,5) by (cases df, cases df') simp
    then show ?thesis using that(1,2) by (simp add: main_def Let_def)
  qed
  have c: "fst (main parse series_str a w) \<in> {Inr (), Inl TypeError, Inl EOFError}"
    if "isfile w (input a)" "last4 (input a) = ''.csv''" "last4 (output a) = ''.vcf''"
      "read_csv parse (input a) w = Inr df"
      "\<forall>k\<in>set required_cols. \<exists>c\<in>set (columns df). case_variant c k"
  proof -
    have "\<forall>k\<in>set required_cols. lower k \<in> lower ` set (columns df)"
      using that(5) by (metis case_variant_lower imageI)
    from main_outcomes [OF that(1-4) this] show ?thesis .
  qed
  show ?thesis using a b c by (auto 0 3)
qed

text \<open>
  \<open>Email\<close> and \<open>email\<close>; a table with the headers \<open>FIRST NAME\<close>, \<open>Last Name\<close>, \<open>Email\<close>,
  \<open>PHONE\<close> runs as the table with the headers in lower case does.
\<close>

theorem column_names_case_insensitive_witness:
  "case_variant ''Email'' ''email'' \<and> lower ''Email'' = lower ''email''
   \<and> main (\<lambda>content. Inr \<lparr>columns = [''FIRST NAME'', ''Last Name'', ''Email'', ''PHONE''], nrows = 1,
              cell_at = (\<lambda>i j. [Str ''Jane'', Str ''Doe'', Str ''jane@x.com'', Str ''555-111-2222''] ! j)\<rparr>)
        (\<lambda>sub. []) \<lparr>input = ''contacts.csv'', output = ''out.vcf''\<rparr>
        \<lparr>fs = [''contacts.csv'' \<mapsto> []], stdin = [], stdout = []\<rparr>
     = main (\<lambda>content. Inr \<lparr>columns = [''first name'', ''last name'', ''email'', ''phone''], nrows = 1,
              cell_at = (\<lambda>i j. [Str ''Jane'', Str ''Doe'', Str ''jane@x.com'', Str ''555-111-2222''] ! j)\<rparr>)
        (\<lambda>sub. []) \<lparr>input = ''contacts.csv'', output = ''out.vcf''\<rparr>
        \<lparr>fs = [''contacts.csv'' \<mapsto> []], stdin = [], stdout = []\<rparr>
   \<and> (\<forall>msg. fst (main (\<lambda>content. Inr \<lparr>columns = [''FIRST NAME'', ''Last Name'', ''Email'', ''PHONE''], nrows = 1,
              cell_at = (\<lambda>i j. [Str ''Jane'', Str ''Doe'', Str ''jane@x.com'', Str ''555-111-2222''] ! j)\<rparr>)
        (\<lambda>sub. []) \<lparr>input = ''contacts.csv'', output = ''out.vcf''\<rparr>
        \<lparr>fs = [''contacts.csv'' \<mapsto> []], stdin = [], stdout = []\<rparr>) \<noteq> Inl (ValueError msg))"
proof -
  let ?cells = "\<lambda>(i::nat) j. [Str ''Jane'', Str ''Doe'', Str ''jane@x.com'', Str ''555-111-2222''] ! j"
  let ?df = "\<lparr>columns = [''FIRST NAME'', ''Last Name'', ''Email'', ''PHONE''], nrows = 1,
              cell_at = ?cells\<rparr>"
  let ?df' = "\<lparr>columns = [''first name'', ''last name'', ''email'', ''phone''], nrows = 1,
              cell_at = ?cells\<rparr>"
  let ?a = "\<lparr>input = ''contacts.csv'', output = ''out.vcf''\<rparr>"
  let ?w = "\<lparr>fs = [''contacts.csv'' \<mapsto> []], stdin = [], stdout = []\<rparr>"
  have v: "case_variant ''Email'' ''email''" by code_simp
  have vs: "list_all2 case_variant (columns ?df) (columns ?df')"
    unfolding select_convs by code_simp
  have req: "\<forall>k\<in>set required_cols. \<exists>c\<in>set (columns ?df). case_variant c k"
    unfolding select_convs required_cols_def by code_simp
  have rd: "read_csv (\<lambda>content. Inr ?df) (input ?a) ?w = Inr ?df"
    "read_csv (\<lambda>content. Inr ?df') (input ?a) ?w = Inr ?df'"
    by (simp_all add: read_csv_def)
  have chk: "isfile ?w (input ?a)" "last4 (input ?a) = ''.csv''" "last4 (output ?a) = ''.vcf''"
    by (simp_all add: isfile_def last4_def)
  note t = column_names_case_insensitive
        [where h = "''Email''" and h' = "''email''"
           and parse = "\<lambda>content. Inr ?df" and parse' = "\<lambda>content. Inr ?df'"
           and series_str = "\<lambda>sub. []" and a = ?a and w = ?w and df = ?df and df' = ?df']
  have c1: "lower ''Email'' = lower ''email''"
    by (rule mp [OF t [THEN conjunct1] v])
  have h2: "read_csv (\<lambda>content. Inr ?df) (input ?a) ?w = Inr ?df
      \<and> read_csv (\<lambda>content. Inr ?df') (input ?a) ?w = Inr ?df'
      \<and> list_all2 case_variant (columns ?df) (columns ?df')
      \<and> nrows ?df = nrows ?df' \<and> cell_at ?df = cell_at ?df'"
    using rd vs by simp
  have c2: "main (\<lambda>content. Inr ?df) (\<lambda>sub. []) ?a ?w = main (\<lambda>content. Inr ?df') (\<lambda>sub. []) ?a ?w"
    by (rule mp [OF t [THEN conjunct2, THEN conjunct1] h2])
  have h3: "isfile ?w (input ?a) \<and> last4 (input ?a) = ''.csv'' \<and> last4 (output ?a) = ''.vcf''
      \<and> read_csv (\<lambda>content. Inr ?df) (input ?a) ?w = Inr ?df
      \<and> (\<forall>k\<in>set required_cols. \<exists>c\<in>set (columns ?df). case_variant c k)"
    using chk rd(1) req by blast
  have c3: "\<forall>msg. fst (main (\<lambda>content. Inr ?df) (\<lambda>sub. []) ?a ?w) \<noteq> Inl (ValueError msg)"
    by (rule conjunct1 [OF mp [OF t [THEN conjunct2, THEN conjunct2] h3]])
  show ?thesis
    using v c1 c2 c3 by (intro conjI)
qed


subsection \<open>C9: the extension checks are exact\<close>

text \<open>
  C9: unlike the column names, the extensions are compared exactly, on the last four
  characters of the path. An input path that ends in \<open>.CSV\<close>, or in any other spelling
  of \<open>.csv\<close> that is not all lower case, is refused as input, and so is an output path
  that ends in \<open>.VCF\<close>, though the files themselves would do.

  An ending whose lower-case form is the extension is four characters long, so it is
  what the slice compares; when it is not the extension itself the run raises, with the
  message of the extension check when the paths are otherwise fine.
\<close>

theorem extension_checks_case_sensitive:
  "(lower ext = ''.csv'' \<and> ext \<noteq> ''.csv'' \<longrightarrow>
      last4 (base @ ext) = ext
      \<and> (\<exists>msg. main parse series_str \<lparr>input = base @ ext, output = out\<rparr> w
                 = (Inl (ValueError msg), w)))
   \<and> (lower ext = ''.csv'' \<and> ext \<noteq> ''.csv'' \<and> isfile w (base @ ext) \<longrightarrow>
      main parse series_str \<lparr>input = base @ ext, output = out\<rparr> w
        = (Inl (ValueError not_csv), w))
   \<and> (lower ext = ''.vcf'' \<and> ext \<noteq> ''.vcf'' \<and> isfile w inp \<and> last4 inp = ''.csv'' \<longrightarrow>
      last4 (base @ ext) = ext
      \<and> main parse series_str \<lparr>input = inp, output = base @ ext\<rparr> w
        = (Inl (ValueError not_vcf), w))"
proof -
  have len: "length ext = 4" if "lower ext = ''.csv'' \<or> lower ext = ''.vcf''"
  proof -
    have "length (lower ext) = length ext" by (simp add: lower_def)
    with that show ?thesis by auto
  qed
  have l4: "last4 (base @ ext) = ext" if "lower ext = ''.csv'' \<or> lower ext = ''.vcf''"
    using len [OF that] by (simp add: last4_def)
  show ?thesis
    using l4 by (auto simp: main_def)
qed

theorem extension_checks_case_sensitive_witness:
  "main (\<lambda>content. Inl (ParserError [])) (\<lambda>sub. [])
      \<lparr>input = ''contacts'' @ ''.CSV'', output = ''out.vcf''\<rparr>
      \<lparr>fs = [''contacts.CSV'' \<mapsto> []], stdin = [], stdout = []\<rparr>
     = (Inl (ValueError not_csv), \<lparr>fs = [''contacts.CSV'' \<mapsto> []], stdin = [], stdout = []\<rparr>)
   \<and> main (\<lambda>content. Inl (ParserError [])) (\<lambda>sub. [])
      \<lparr>input = ''contacts.csv'', output = ''cards'' @ ''.VCF''\<rparr>
      \<lparr>fs = [''contacts.csv'' \<mapsto> []], stdin = [], stdout = []\<rparr>
     = (Inl (ValueError not_vcf), \<lparr>fs = [''contacts.csv'' \<mapsto> []], stdin = [], stdout = []\<rparr>)"
proof -
  have l: "lower ''.CSV'' = ''.csv''" "lower ''.VCF'' = ''.vcf''" by code_simp+
  show ?thesis
    using l
      extension_checks_case_sensitive
        [where ext = "''.CSV''" and base = "''contacts''" and out = "''out.vcf''"
           and parse = "\<lambda>content. Inl (ParserError [])" and series_str = "\<lambda>sub. []"
           and w = "\<lparr>fs = [''contacts.CSV'' \<mapsto> []], stdin = [], stdout = []\<rparr>"]
      extension_checks_case_sensitive
        [where ext = "''.VCF''" and base = "''cards''" and inp = "''contacts.csv''"
           and parse = "\<lambda>content. Inl (ParserError [])" and series_str = "\<lambda>sub. []"
           and w = "\<lparr>fs = [''contacts.csv'' \<mapsto> []], stdin = [], stdout = []\<rparr>"]
    by (simp add: isfile_def last4_def)
qed

subsection \<open>C10: a table with a header and no rows\<close>




end
